theory Spec2Isabelle
  imports
    Complex_Main
    "HOL-Library.Sublist"
    "HOL-Library.Char_ord"
    "HOL-Library.List_Lexorder"
    "HOL-Library.Product_Lexorder"
begin

section \<open>Ledger settlement: the data\<close>

text \<open>
  The development follows \<^verbatim>\<open>LedgerSettlementAgent.py\<close>. The pandas frame
  \<^verbatim>\<open>self.ledger\<close> is a list of rows; the label of a row (its \<^verbatim>\<open>.name\<close>) is its
  position, as \<^verbatim>\<open>read_csv\<close> gives a range index. A selection of the frame
  (\<^verbatim>\<open>self.ledger[mask]\<close>) is a copy: a list of pairs of a label and the row as it was
  when the selection was taken.

  The columns that the rows of the frame and the dictionaries of \<^verbatim>\<open>self.results\<close>
  have in common are the fields of the record \<open>entry\<close>, which the other records extend.
  A time stamp is a number of nanoseconds, \<open>None\<close> is \<^verbatim>\<open>NaT\<close>; the range of
  representable time stamps of pandas is not modelled. \<^verbatim>\<open>Amount\<close> is a finite number, of
  which the code reads the sign only. A missing \<^verbatim>\<open>MainAccount\<close> (the column is not
  filled by \<^verbatim>\<open>load_ledger\<close>) is \<open>None\<close>.
\<close>

datatype ttype = debit | credit

datatype error = KeyError

record entry =
  Journal_number :: string
  Voucher :: string
  Date :: "int option"
  CostCentre :: string
  ProfitCentre :: string
  Description :: string
  Amount :: real

record csv_row = entry +
  MainAccount :: "string option"

record row = csv_row +
  Type :: ttype
  ExtractedNumbers :: "string list"
  Matched :: bool
  Read :: bool

record result = entry +
  Account :: "string option"
  Settlement_Number :: string

type_synonym frame = "(nat \<times> row) list"

text \<open>
  The object: \<^verbatim>\<open>self.transdays\<close>, \<^verbatim>\<open>self.results\<close>, \<^verbatim>\<open>self.ledger\<close> and
  \<^verbatim>\<open>self.append_debit\<close>. Every dictionary of \<open>results\<close> is paired with the label of
  the row it was built from; the label is not written to the file
  (\<open>write_results\<close> drops it). \<open>uuid_calls\<close> counts the calls of \<^verbatim>\<open>uuid.uuid4()\<close> made
  so far; the generator is a parameter \<open>uuid4\<close> of the functions below, whose value at
  \<open>k\<close> is the string of the \<open>k\<close>-th identifier drawn in the run.
\<close>

record LedgerSettlement =
  transdays :: int
  results :: "(nat \<times> result) list"
  ledger :: "row list"
  append_debit :: bool
  uuid_calls :: nat

definition init :: "int \<Rightarrow> LedgerSettlement" where
  "init days = \<lparr>transdays = days, results = [], ledger = [], append_debit = False, uuid_calls = 0\<rparr>"

section \<open>Loading\<close>

text \<open>\<^verbatim>\<open>re.findall(r'\d+', x)\<close>: the maximal runs of digits, from left to right. A
  description is a string of bytes here, and the digits are the ten ASCII digits.\<close>

definition is_digit :: "char \<Rightarrow> bool" where
  "is_digit c = (c \<in> set ''0123456789'')"

fun digit_runs :: "string \<Rightarrow> string \<Rightarrow> string list" where
  "digit_runs cur [] = (if cur = [] then [] else [cur])"
| "digit_runs cur (c # cs) =
     (if is_digit c then digit_runs (cur @ [c]) cs
      else (if cur = [] then [] else [cur]) @ digit_runs [] cs)"

definition findall_digits :: "string \<Rightarrow> string list" where
  "findall_digits x = digit_runs [] x"

definition load_row :: "csv_row \<Rightarrow> row" where
  "load_row x =
     \<lparr>Journal_number = Journal_number x, Voucher = Voucher x, Date = Date x,
      CostCentre = CostCentre x, ProfitCentre = ProfitCentre x,
      Description = Description x, Amount = Amount x, MainAccount = MainAccount x,
      Type = (if Amount x < 0 then debit else credit),
      ExtractedNumbers = findall_digits (Description x),
      Matched = False, Read = False\<rparr>"

definition load_ledger :: "csv_row list \<Rightarrow> LedgerSettlement \<Rightarrow> LedgerSettlement" where
  "load_ledger file s = s\<lparr>ledger := map load_row file\<rparr>"

section \<open>Frames\<close>

text \<open>\<^verbatim>\<open>self.ledger[mask]\<close>: the rows that satisfy the mask, with their labels, in the
  order of the frame.\<close>

definition select :: "(row \<Rightarrow> bool) \<Rightarrow> row list \<Rightarrow> frame" where
  "select cond led = filter (\<lambda>(i, r). cond r) (enumerate 0 led)"

text \<open>\<^verbatim>\<open>.sort_values(by='Date')\<close>: ascending, \<^verbatim>\<open>NaT\<close> last. Rows of equal date keep
  the order of the frame here; the default sort of pandas may order them otherwise on a
  large frame.\<close>

definition date_key :: "int option \<Rightarrow> bool \<times> int" where
  "date_key d = (case d of None \<Rightarrow> (True, 0) | Some t \<Rightarrow> (False, t))"

definition sort_values :: "frame \<Rightarrow> frame" where
  "sort_values fr = sort_key (\<lambda>(i, r). date_key (Date r)) fr"

text \<open>\<^verbatim>\<open>credits.loc[label]\<close>\<close>

definition loc :: "frame \<Rightarrow> nat \<Rightarrow> row option" where
  "loc fr label = map_of fr label"

text \<open>\<^verbatim>\<open>self.ledger.at[label, 'Read'] = True\<close> and the same for \<^verbatim>\<open>'Matched'\<close>, at a
  label of the frame.\<close>

definition set_Read :: "row list \<Rightarrow> nat \<Rightarrow> row list" where
  "set_Read led label = led[label := (led ! label)\<lparr>Read := True\<rparr>]"

definition set_Matched :: "row list \<Rightarrow> nat \<Rightarrow> row list" where
  "set_Matched led label = led[label := (led ! label)\<lparr>Matched := True\<rparr>]"

text \<open>\<^verbatim>\<open>self.ledger.groupby('MainAccount')\<close>: the keys in ascending order, rows
  without an account dropped.\<close>

definition groupby_MainAccount :: "row list \<Rightarrow> string list" where
  "groupby_MainAccount led = sort (remdups (List.map_filter MainAccount led))"

section \<open>Time stamps\<close>

definition day_ns :: int where
  "day_ns = 86400000000000"

text \<open>\<^verbatim>\<open>date - pd.Timedelta(days=n)\<close> and \<^verbatim>\<open>date + pd.Timedelta(days=n)\<close>\<close>

definition minus_days :: "int option \<Rightarrow> int \<Rightarrow> int option" where
  "minus_days d n = map_option (\<lambda>t. t - n * day_ns) d"

definition plus_days :: "int option \<Rightarrow> int \<Rightarrow> int option" where
  "plus_days d n = map_option (\<lambda>t. t + n * day_ns) d"

text \<open>A comparison with \<^verbatim>\<open>NaT\<close> on either side is false.\<close>

definition date_ge :: "int option \<Rightarrow> int option \<Rightarrow> bool" where
  "date_ge a b = (case (a, b) of (Some x, Some y) \<Rightarrow> x \<ge> y | _ \<Rightarrow> False)"

definition date_le :: "int option \<Rightarrow> int option \<Rightarrow> bool" where
  "date_le a b = (case (a, b) of (Some x, Some y) \<Rightarrow> x \<le> y | _ \<Rightarrow> False)"

text \<open>\<^verbatim>\<open>(a - b).days\<close>: the whole days of the difference, rounded down; \<open>None\<close> is
  the \<^verbatim>\<open>nan\<close> that \<^verbatim>\<open>NaT.days\<close> gives, with which every comparison is false.\<close>

definition days_between :: "int option \<Rightarrow> int option \<Rightarrow> int option" where
  "days_between a b = (case (a, b) of (Some x, Some y) \<Rightarrow> Some ((x - y) div day_ns) | _ \<Rightarrow> None)"

definition outside :: "int option \<Rightarrow> int \<Rightarrow> bool" where
  "outside date_diff n = (case date_diff of None \<Rightarrow> False | Some k \<Rightarrow> k < - n \<or> k > n)"

section \<open>Overlap of the extracted numbers\<close>

text \<open>\<^verbatim>\<open>n1 in n2\<close> on strings\<close>

fun str_in :: "string \<Rightarrow> string \<Rightarrow> bool" where
  "str_in n1 [] = (n1 = [])"
| "str_in n1 (c # cs) = (prefix n1 (c # cs) \<or> str_in n1 cs)"

text \<open>\<^verbatim>\<open>set(xs)\<close> is iterated in some order, every element once; only the length of
  \<open>common\<close> is read.\<close>

definition common :: "string list \<Rightarrow> string list \<Rightarrow> string list" where
  "common debit_numbers credit_numbers =
     [n1. n1 \<leftarrow> debit_numbers, n2 \<leftarrow> credit_numbers, str_in n1 n2 \<or> str_in n2 n1]"

definition overlap :: "string list \<Rightarrow> string list \<Rightarrow> nat" where
  "overlap debit_extracted credit_extracted =
     length (common (remdups debit_extracted) (remdups credit_extracted))"

section \<open>Matching\<close>

definition settlement_record ::
  "row \<Rightarrow> string \<Rightarrow> string \<Rightarrow> string \<Rightarrow> string \<Rightarrow> result" where
  "settlement_record r account costcentre profitcentre unique_guid =
     \<lparr>Journal_number = Journal_number r, Voucher = Voucher r, Date = Date r,
      CostCentre = costcentre, ProfitCentre = profitcentre,
      Description = Description r, Amount = Amount r,
      Account = Some account, Settlement_Number = unique_guid\<rparr>"

text \<open>The body of the loop of \<^verbatim>\<open>match_credits_number\<close>, for the pair \<open>(j, credit_row)\<close>
  of \<^verbatim>\<open>credits.iterrows()\<close>. \<open>best_credit_idx\<close> is carried from one candidate to the
  next, \<open>best_overlap\<close> starts at zero for every candidate.\<close>

definition credit_step ::
  "string \<Rightarrow> string \<Rightarrow> string \<Rightarrow> nat \<times> row \<Rightarrow> frame \<Rightarrow> string \<Rightarrow> nat \<times> row \<Rightarrow>
   nat option \<times> LedgerSettlement \<Rightarrow> error + (nat option \<times> LedgerSettlement)" where
  "credit_step account costcentre profitcentre debit_row credits unique_guid jc bs =
     (case jc of (j, credit_row) \<Rightarrow> case bs of (best_credit_idx, s) \<Rightarrow>
        if Matched credit_row then Inr (best_credit_idx, s)
        else if outside (days_between (Date credit_row) (Date (snd debit_row))) (transdays s)
        then Inr (best_credit_idx, s)
        else
          let best_overlap = 0;
              ov = overlap (ExtractedNumbers (snd debit_row)) (ExtractedNumbers credit_row);
              best_credit_idx = (if ov > best_overlap then Some j else best_credit_idx);
              best_overlap = (if ov > best_overlap then ov else best_overlap)
          in (case best_credit_idx of
                None \<Rightarrow> Inr (best_credit_idx, s)
              | Some b \<Rightarrow>
                  if best_overlap > 0 then
                    (case loc credits b of
                       None \<Rightarrow> Inl KeyError
                     | Some credit_row \<Rightarrow>
                         Inr (best_credit_idx,
                              s\<lparr>append_debit := True,
                                ledger := set_Matched (ledger s) b,
                                results := results s @
                                  [(b, settlement_record credit_row account costcentre
                                         profitcentre unique_guid)]\<rparr>))
                  else Inr (best_credit_idx, s)))"

fun credits_loop ::
  "string \<Rightarrow> string \<Rightarrow> string \<Rightarrow> nat \<times> row \<Rightarrow> frame \<Rightarrow> string \<Rightarrow> frame \<Rightarrow>
   nat option \<times> LedgerSettlement \<Rightarrow> error + (nat option \<times> LedgerSettlement)" where
  "credits_loop account costcentre profitcentre debit_row credits unique_guid [] bs = Inr bs"
| "credits_loop account costcentre profitcentre debit_row credits unique_guid (jc # rest) bs =
     (case credit_step account costcentre profitcentre debit_row credits unique_guid jc bs of
        Inl e \<Rightarrow> Inl e
      | Inr bs' \<Rightarrow>
          credits_loop account costcentre profitcentre debit_row credits unique_guid rest bs')"

definition match_credits_number ::
  "string \<Rightarrow> string \<Rightarrow> string \<Rightarrow> nat \<times> row \<Rightarrow> frame \<Rightarrow> string \<Rightarrow>
   LedgerSettlement \<Rightarrow> error + LedgerSettlement" where
  "match_credits_number account costcentre profitcentre debit_row credits unique_guid s =
     (case credits_loop account costcentre profitcentre debit_row credits unique_guid credits
             (None, s) of
        Inl e \<Rightarrow> Inl e
      | Inr (best_credit_idx, s') \<Rightarrow>
          if append_debit s' then
            Inr (s'\<lparr>ledger := set_Matched (ledger s') (fst debit_row),
                    results := results s' @
                      [(fst debit_row, settlement_record (snd debit_row) account costcentre
                                         profitcentre unique_guid)]\<rparr>)
          else Inr s')"

section \<open>The loop over the debits of an account\<close>

text \<open>The unread debits of the account, by date (lines 58 to 62 and 85 to 89).\<close>

definition filtered :: "LedgerSettlement \<Rightarrow> string \<Rightarrow> frame" where
  "filtered s account =
     sort_values (select (\<lambda>r. Type r = debit \<and> MainAccount r = Some account \<and> \<not> Read r)
                    (ledger s))"

text \<open>The candidates of a debit (lines 76 to 81), read from the frame as it is when the
  selection is taken.\<close>

definition unsettletrans :: "LedgerSettlement \<Rightarrow> row \<Rightarrow> frame" where
  "unsettletrans s debit_r =
     sort_values (select (\<lambda>r. \<not> Read r \<and> \<not> Matched r
                              \<and> CostCentre r = CostCentre debit_r
                              \<and> ProfitCentre r = ProfitCentre debit_r
                              \<and> date_ge (Date r) (minus_days (Date debit_r) (transdays s))
                              \<and> date_le (Date r) (plus_days (Date debit_r) (transdays s)))
                    (ledger s))"

text \<open>Lines 66 to 71: the debit is marked read, an identifier is drawn and
  \<open>append_debit\<close> is reset.\<close>

definition mark_read :: "nat \<times> row \<Rightarrow> LedgerSettlement \<Rightarrow> LedgerSettlement" where
  "mark_read debit_row s =
     s\<lparr>ledger := set_Read (ledger s) (fst debit_row),
       uuid_calls := Suc (uuid_calls s),
       append_debit := False\<rparr>"

text \<open>One turn of the \<^verbatim>\<open>while\<close> loop, for \<open>debit_row = filtered.iloc[0]\<close>.\<close>

definition settle_debit ::
  "(nat \<Rightarrow> string) \<Rightarrow> string \<Rightarrow> nat \<times> row \<Rightarrow> LedgerSettlement \<Rightarrow> error + LedgerSettlement" where
  "settle_debit uuid4 account debit_row s =
     (let unique_guid = uuid4 (uuid_calls s);
          s1 = mark_read debit_row s;
          costcentre = CostCentre (snd debit_row);
          profitcentre = ProfitCentre (snd debit_row)
      in match_credits_number account costcentre profitcentre debit_row
           (unsettletrans s1 (snd debit_row)) unique_guid s1)"

text \<open>The loop needs that a turn leaves every column but \<^verbatim>\<open>Matched\<close> as it is.\<close>

definition static :: "row \<Rightarrow> row" where
  "static r = r\<lparr>Matched := False\<rparr>"

lemma static_set_Matched: "map static (set_Matched led b) = map static led"
proof (rule nth_equalityI)
  show "length (map static (set_Matched led b)) = length (map static led)"
    by (simp add: set_Matched_def)
next
  fix i
  assume "i < length (map static (set_Matched led b))"
  then have "i < length led" by (simp add: set_Matched_def)
  then show "map static (set_Matched led b) ! i = map static led ! i"
    by (cases "i = b") (simp_all add: set_Matched_def static_def)
qed

lemma credit_step_static:
  assumes "credit_step a cc pc d credits g jc (b, s) = Inr (b', s')"
  shows "map static (ledger s') = map static (ledger s) \<and> transdays s' = transdays s
         \<and> uuid_calls s' = uuid_calls s"
  using assms
  by (auto simp: credit_step_def Let_def static_set_Matched
           split: prod.splits if_splits option.splits)

lemma credits_loop_static:
  assumes "credits_loop a cc pc d credits g rest (b, s) = Inr (b', s')"
  shows "map static (ledger s') = map static (ledger s) \<and> transdays s' = transdays s
         \<and> uuid_calls s' = uuid_calls s"
  using assms
proof (induction rest arbitrary: b s)
  case Nil
  then show ?case by simp
next
  case (Cons jc rest)
  then show ?case
    by (auto split: sum.splits dest!: credit_step_static)
qed

lemma match_credits_number_static:
  assumes "match_credits_number a cc pc d credits g s = Inr s'"
  shows "map static (ledger s') = map static (ledger s) \<and> transdays s' = transdays s
         \<and> uuid_calls s' = uuid_calls s"
  using assms
  by (auto simp: match_credits_number_def static_set_Matched
           split: sum.splits prod.splits if_splits dest!: credits_loop_static)

lemma settle_debit_static:
  assumes "settle_debit uuid4 a d s = Inr s'"
  shows "map static (ledger s') = map static (set_Read (ledger s) (fst d))
         \<and> transdays s' = transdays s \<and> uuid_calls s' = Suc (uuid_calls s)"
  using match_credits_number_static [OF assms [unfolded settle_debit_def Let_def]]
  by (simp add: mark_read_def)

lemma set_select:
  "set (select cond led) = {(i, r). i < length led \<and> r = led ! i \<and> cond r}"
  by (auto simp: select_def in_set_enumerate_eq)

lemma set_filtered:
  "set (filtered s a) =
     {(i, r). i < length (ledger s) \<and> r = ledger s ! i
              \<and> Type r = debit \<and> MainAccount r = Some a \<and> \<not> Read r}"
  by (simp add: filtered_def sort_values_def set_select)

definition unread :: "row list \<Rightarrow> nat" where
  "unread led = length (filter (\<lambda>r. \<not> Read r) led)"

lemma unread_static: "unread (map static led) = unread led"
  by (simp add: unread_def filter_map o_def static_def)

lemma unread_set_Read:
  assumes "i < length led" "\<not> Read (led ! i)"
  shows "unread (set_Read led i) < unread led"
proof -
  have led: "led = take i led @ led ! i # drop (Suc i) led"
    using assms(1) by (simp add: id_take_nth_drop)
  have "set_Read led i = take i led @ (led ! i)\<lparr>Read := True\<rparr> # drop (Suc i) led"
    using assms(1) by (simp add: set_Read_def upd_conv_take_nth_drop)
  then have "unread (set_Read led i) = unread (take i led) + unread (drop (Suc i) led)"
    by (simp add: unread_def)
  moreover have "unread led = unread (take i led) + 1 + unread (drop (Suc i) led)"
    using assms(2) by (subst led) (simp add: unread_def)
  ultimately show ?thesis by simp
qed

lemma settle_debit_unread:
  assumes "filtered s a = d # rest" "settle_debit uuid4 a d s = Inr s'"
  shows "unread (ledger s') < unread (ledger s)"
proof -
  have "d \<in> set (filtered s a)" using assms(1) by simp
  then have d: "fst d < length (ledger s)" "\<not> Read (ledger s ! fst d)"
    by (auto simp: set_filtered)
  have "unread (ledger s') = unread (map static (ledger s'))"
    by (simp add: unread_static)
  also have "\<dots> = unread (set_Read (ledger s) (fst d))"
    using settle_debit_static [OF assms(2)] by (simp add: unread_static)
  also have "\<dots> < unread (ledger s)"
    using d by (rule unread_set_Read)
  finally show ?thesis .
qed

text \<open>The \<^verbatim>\<open>while not filtered.empty\<close> loop of one account. The selection
  \<open>filtered\<close> is taken anew at the end of every turn, so it is a function of the state
  at the head of the loop.\<close>

function settle_account ::
  "(nat \<Rightarrow> string) \<Rightarrow> string \<Rightarrow> LedgerSettlement \<Rightarrow> error + LedgerSettlement" where
  "settle_account uuid4 account s =
     (case filtered s account of
        [] \<Rightarrow> Inr s
      | debit_row # rest \<Rightarrow>
          (case settle_debit uuid4 account debit_row s of
             Inl e \<Rightarrow> Inl e
           | Inr s' \<Rightarrow> settle_account uuid4 account s'))"
  by pat_completeness auto
termination
  by (relation "measure (\<lambda>(uuid4, account, s). unread (ledger s))")
     (auto simp: settle_debit_unread)

text \<open>\<^verbatim>\<open>for account, group in self.ledger.groupby('MainAccount')\<close>\<close>

fun for_accounts ::
  "(nat \<Rightarrow> string) \<Rightarrow> string list \<Rightarrow> LedgerSettlement \<Rightarrow> error + LedgerSettlement" where
  "for_accounts uuid4 [] s = Inr s"
| "for_accounts uuid4 (account # accounts) s =
     (case settle_account uuid4 account s of
        Inl e \<Rightarrow> Inl e
      | Inr s' \<Rightarrow> for_accounts uuid4 accounts s')"

definition settle_ledger :: "(nat \<Rightarrow> string) \<Rightarrow> LedgerSettlement \<Rightarrow> error + LedgerSettlement" where
  "settle_ledger uuid4 s = for_accounts uuid4 (groupby_MainAccount (ledger s)) s"

section \<open>Output\<close>

definition unsettled_record :: "row \<Rightarrow> result" where
  "unsettled_record r =
     \<lparr>Journal_number = Journal_number r, Voucher = Voucher r, Date = Date r,
      CostCentre = CostCentre r, ProfitCentre = ProfitCentre r,
      Description = Description r, Amount = Amount r,
      Account = MainAccount r, Settlement_Number = ''''\<rparr>"

definition write_unsettled :: "LedgerSettlement \<Rightarrow> LedgerSettlement" where
  "write_unsettled s =
     s\<lparr>results := results s @
          map (\<lambda>(i, remaining_row). (i, unsettled_record remaining_row))
            (select (\<lambda>r. \<not> Matched r) (ledger s))\<rparr>"

text \<open>The rows handed to \<^verbatim>\<open>to_csv\<close>, in the order of \<^verbatim>\<open>self.results\<close>.\<close>

definition write_results :: "LedgerSettlement \<Rightarrow> result list" where
  "write_results s = map snd (results s)"

text \<open>The calls of \<^verbatim>\<open>process_mcp\<close> up to \<^verbatim>\<open>write_unsettled\<close>, for a tolerance of
  \<open>days\<close> (3 at the endpoint) and the rows \<open>file\<close> of the ledger file.\<close>

definition process_mcp ::
  "(nat \<Rightarrow> string) \<Rightarrow> int \<Rightarrow> csv_row list \<Rightarrow> error + LedgerSettlement" where
  "process_mcp uuid4 days file =
     (case settle_ledger uuid4 (load_ledger file (init days)) of
        Inl e \<Rightarrow> Inl e
      | Inr s \<Rightarrow> Inr (write_unsettled s))"

section \<open>One pass of the loop, in closed form\<close>

text \<open>
  The candidates of a debit have distinct labels, so \<^verbatim>\<open>credits.loc\<close> never fails and
  returns the row that the loop is at; the pass then attaches, in the order of the
  candidates, exactly those whose overlap score is positive (\<open>attached\<close>), and
  \<open>settle_debit\<close> returns the state \<open>debit_outcome\<close>. The definitions of this
  section and of the sections on invariants serve the proofs only.
\<close>

lemma distinct_fst_select: "distinct (map fst (select cond led))"
  by (simp add: select_def distinct_map_filter)

lemma set_sort_values: "set (sort_values fr) = set fr"
  by (simp add: sort_values_def)

lemma distinct_fst_sort_values: "distinct (map fst (sort_values fr)) = distinct (map fst fr)"
  by (simp add: sort_values_def distinct_map)

lemma loc_member:
  assumes "distinct (map fst fr)" "(j, r) \<in> set fr"
  shows "loc fr j = Some r"
  using assms by (simp add: loc_def)

definition qualifies :: "int \<Rightarrow> row \<Rightarrow> row \<Rightarrow> bool" where
  "qualifies n debit_r cr =
     (\<not> Matched cr \<and> \<not> outside (days_between (Date cr) (Date debit_r)) n
      \<and> overlap (ExtractedNumbers debit_r) (ExtractedNumbers cr) > 0)"

definition attach ::
  "string \<Rightarrow> string \<Rightarrow> string \<Rightarrow> string \<Rightarrow> nat \<times> row \<Rightarrow> LedgerSettlement \<Rightarrow> LedgerSettlement" where
  "attach a cc pc g jc s =
     s\<lparr>append_debit := True,
       ledger := set_Matched (ledger s) (fst jc),
       results := results s @ [(fst jc, settlement_record (snd jc) a cc pc g)]\<rparr>"

lemma credit_step_eq:
  assumes "loc credits j = Some cr"
  shows "credit_step a cc pc d credits g (j, cr) (b, s) =
           Inr (if qualifies (transdays s) (snd d) cr then (Some j, attach a cc pc g (j, cr) s)
                else (b, s))"
  using assms
  by (auto simp: credit_step_def qualifies_def attach_def Let_def split: option.splits)

lemma transdays_attach: "transdays (attach a cc pc g jc s) = transdays s"
  by (simp add: attach_def)

lemma credits_loop_eq:
  assumes "\<forall>jc \<in> set rest. loc credits (fst jc) = Some (snd jc)"
  shows "\<exists>b'. credits_loop a cc pc d credits g rest (b, s) =
           Inr (b', fold (attach a cc pc g)
                      (filter (\<lambda>jc. qualifies (transdays s) (snd d) (snd jc)) rest) s)"
  using assms
proof (induction rest arbitrary: b s)
  case Nil
  then show ?case by simp
next
  case (Cons jc rest)
  obtain j cr where jc: "jc = (j, cr)" by (cases jc)
  have step: "credit_step a cc pc d credits g (j, cr) (b, s) =
           Inr (if qualifies (transdays s) (snd d) cr then (Some j, attach a cc pc g (j, cr) s)
                else (b, s))"
    using Cons.prems jc by (intro credit_step_eq) simp
  have rest: "\<forall>jc \<in> set rest. loc credits (fst jc) = Some (snd jc)"
    using Cons.prems by simp
  show ?case
  proof (cases "qualifies (transdays s) (snd d) cr")
    case True
    from Cons.IH [OF rest, of "Some j" "attach a cc pc g (j, cr) s"]
    show ?thesis using True step jc by (simp add: transdays_attach)
  next
    case False
    from Cons.IH [OF rest, of b s]
    show ?thesis using False step jc by simp
  qed
qed


lemma results_fold_attach:
  "results (fold (attach a cc pc g) js s) =
     results s @ map (\<lambda>jc. (fst jc, settlement_record (snd jc) a cc pc g)) js"
  by (induction js arbitrary: s) (simp_all add: attach_def)

lemma ledger_fold_attach:
  "ledger (fold (attach a cc pc g) js s) = fold (\<lambda>j led. set_Matched led j) (map fst js) (ledger s)"
  by (induction js arbitrary: s) (simp_all add: attach_def)

lemma append_debit_fold_attach:
  "append_debit (fold (attach a cc pc g) js s) = (append_debit s \<or> js \<noteq> [])"
  by (induction js arbitrary: s) (auto simp: attach_def)

lemma transdays_fold_attach: "transdays (fold (attach a cc pc g) js s) = transdays s"
  by (induction js arbitrary: s) (simp_all add: attach_def)

lemma uuid_calls_fold_attach: "uuid_calls (fold (attach a cc pc g) js s) = uuid_calls s"
  by (induction js arbitrary: s) (simp_all add: attach_def)

lemma window_days:
  assumes "date_ge x (minus_days y n)" "date_le x (plus_days y n)"
  shows "\<not> outside (days_between x y) n"
proof -
  obtain a b where x: "x = Some a" and y: "y = Some b"
    using assms(1) by (cases x; cases y) (simp_all add: date_ge_def minus_days_def)
  have lo: "b - n * day_ns \<le> a" and hi: "a \<le> b + n * day_ns"
    using assms by (simp_all add: x y date_ge_def date_le_def minus_days_def plus_days_def)
  have pos: "0 < day_ns" by (simp add: day_ns_def)
  have "(- n) * day_ns \<le> a - b" using lo by simp
  then have "((- n) * day_ns) div day_ns \<le> (a - b) div day_ns"
    using pos by (rule zdiv_mono1)
  moreover have "((- n) * day_ns) div day_ns = - n"
    using pos by (intro nonzero_mult_div_cancel_right) simp
  ultimately have 1: "- n \<le> (a - b) div day_ns" by (simp only:)
  have "a - b \<le> n * day_ns" using hi by simp
  then have "(a - b) div day_ns \<le> (n * day_ns) div day_ns"
    using pos by (rule zdiv_mono1)
  moreover have "(n * day_ns) div day_ns = n"
    using pos by (intro nonzero_mult_div_cancel_right) simp
  ultimately have 2: "(a - b) div day_ns \<le> n" by (simp only:)
  show ?thesis using 1 2 by (simp add: outside_def days_between_def x y)
qed

lemma set_unsettletrans:
  "set (unsettletrans s dr) =
     {(i, r). i < length (ledger s) \<and> r = ledger s ! i \<and> \<not> Read r \<and> \<not> Matched r
        \<and> CostCentre r = CostCentre dr \<and> ProfitCentre r = ProfitCentre dr
        \<and> date_ge (Date r) (minus_days (Date dr) (transdays s))
        \<and> date_le (Date r) (plus_days (Date dr) (transdays s))}"
  by (simp add: unsettletrans_def set_sort_values set_select)

lemma distinct_unsettletrans: "distinct (map fst (unsettletrans s dr))"
  by (simp add: unsettletrans_def distinct_fst_sort_values distinct_fst_select)

lemma unsettletrans_qualifies:
  assumes "jc \<in> set (unsettletrans s dr)"
  shows "qualifies (transdays s) dr (snd jc) =
           (overlap (ExtractedNumbers dr) (ExtractedNumbers (snd jc)) > 0)"
  using assms by (auto simp: set_unsettletrans qualifies_def window_days)

definition attached :: "nat \<times> row \<Rightarrow> LedgerSettlement \<Rightarrow> frame" where
  "attached d s =
     filter (\<lambda>jc. overlap (ExtractedNumbers (snd d)) (ExtractedNumbers (snd jc)) > 0)
       (unsettletrans (mark_read d s) (snd d))"

definition group_records :: "(nat \<Rightarrow> string) \<Rightarrow> string \<Rightarrow> nat \<times> row \<Rightarrow> LedgerSettlement \<Rightarrow> (nat \<times> result) list" where
  "group_records uuid4 a d s =
     (if attached d s = [] then []
      else map (\<lambda>jc. (fst jc, settlement_record (snd jc) a (CostCentre (snd d))
                                  (ProfitCentre (snd d)) (uuid4 (uuid_calls s))))
             (attached d s @ [d]))"

definition debit_outcome ::
  "(nat \<Rightarrow> string) \<Rightarrow> string \<Rightarrow> nat \<times> row \<Rightarrow> LedgerSettlement \<Rightarrow> LedgerSettlement" where
  "debit_outcome uuid4 a d s =
     \<lparr>transdays = transdays s,
      results = results s @ group_records uuid4 a d s,
      ledger = fold (\<lambda>j led. set_Matched led j) (map fst (group_records uuid4 a d s))
                 (set_Read (ledger s) (fst d)),
      append_debit = (attached d s \<noteq> []),
      uuid_calls = Suc (uuid_calls s)\<rparr>"

lemma settle_debit_eq: "settle_debit uuid4 a d s = Inr (debit_outcome uuid4 a d s)"
proof -
  let ?s1 = "mark_read d s"
  let ?cs = "unsettletrans ?s1 (snd d)"
  let ?g = "uuid4 (uuid_calls s)"
  let ?cc = "CostCentre (snd d)"
  let ?pc = "ProfitCentre (snd d)"
  have "\<forall>jc \<in> set ?cs. loc ?cs (fst jc) = Some (snd jc)"
    using loc_member [OF distinct_unsettletrans] by auto
  from credits_loop_eq [OF this, of a ?cc ?pc d ?g None ?s1]
  obtain b' where loop: "credits_loop a ?cc ?pc d ?cs ?g ?cs (None, ?s1) =
      Inr (b', fold (attach a ?cc ?pc ?g)
                 (filter (\<lambda>jc. qualifies (transdays ?s1) (snd d) (snd jc)) ?cs) ?s1)"
    by blast
  have flt: "filter (\<lambda>jc. qualifies (transdays ?s1) (snd d) (snd jc)) ?cs = attached d s"
    unfolding attached_def by (rule filter_cong) (simp_all add: unsettletrans_qualifies)
  show ?thesis
    unfolding settle_debit_def Let_def match_credits_number_def loop flt
    by (cases "attached d s = []")
       (auto intro!: LedgerSettlement.equality
          simp: append_debit_fold_attach results_fold_attach ledger_fold_attach
          transdays_fold_attach uuid_calls_fold_attach debit_outcome_def group_records_def
          mark_read_def o_def)
qed


lemma settle_account_invariant:
  assumes "P s"
    and step: "\<And>s d. P s \<Longrightarrow> d \<in> set (filtered s a) \<Longrightarrow> P (debit_outcome uuid4 a d s)"
  shows "\<exists>s'. settle_account uuid4 a s = Inr s' \<and> P s'"
  using assms
proof (induction uuid4 a s rule: settle_account.induct)
  case (1 uuid4 account s)
  show ?case
  proof (cases "filtered s account")
    case Nil
    then show ?thesis using "1.prems" by simp
  next
    case (Cons d rest)
    have eq: "settle_debit uuid4 account d s = Inr (debit_outcome uuid4 account d s)"
      by (rule settle_debit_eq)
    have "P (debit_outcome uuid4 account d s)"
      using "1.prems"(1) Cons by (intro "1.prems"(2)) simp_all
    from "1.IH" [OF Cons eq this "1.prems"(2)]
    show ?thesis using Cons eq by simp
  qed
qed

lemma for_accounts_invariant:
  assumes "P s"
    and step: "\<And>s a d. P s \<Longrightarrow> d \<in> set (filtered s a) \<Longrightarrow> P (debit_outcome uuid4 a d s)"
  shows "\<exists>s'. for_accounts uuid4 accounts s = Inr s' \<and> P s'"
  using assms(1)
proof (induction accounts arbitrary: s)
  case Nil
  then show ?case by simp
next
  case (Cons a accounts)
  from settle_account_invariant [of P s a uuid4, OF Cons.prems step]
  obtain s1 where s1: "settle_account uuid4 a s = Inr s1" "P s1" by blast
  from Cons.IH [OF s1(2)] show ?case using s1(1) by simp
qed

lemma settle_ledger_invariant:
  assumes "P s"
    and step: "\<And>s a d. P s \<Longrightarrow> d \<in> set (filtered s a) \<Longrightarrow> P (debit_outcome uuid4 a d s)"
  shows "\<exists>s'. settle_ledger uuid4 s = Inr s' \<and> P s'"
  unfolding settle_ledger_def using assms by (rule for_accounts_invariant)

section \<open>Examples\<close>

text \<open>A generator of identifiers for the examples: distinct, never empty.\<close>

definition example_uuid4 :: "nat \<Rightarrow> string" where
  "example_uuid4 k = replicate (Suc k) CHR ''u''"

text \<open>A row of the ledger file on day \<open>day\<close>, with cost centre A and profit centre X.\<close>

definition tx :: "string \<Rightarrow> int \<Rightarrow> string \<Rightarrow> real \<Rightarrow> csv_row" where
  "tx account day description amount =
     \<lparr>Journal_number = ''J'', Voucher = ''V'', Date = Some (day * day_ns),
      CostCentre = ''A'', ProfitCentre = ''X'', Description = description,
      Amount = amount, MainAccount = Some account\<rparr>"

text \<open>A debit and the credit that pays it, one day later.\<close>

definition scenario1 :: "csv_row list" where
  "scenario1 = [tx ''100'' 10 ''INV1002'' (- 100), tx ''100'' 11 ''Payment for INV1002'' 100]"

section \<open>The candidates of a debit\<close>

lemma Read_set_Read:
  "i < length led \<Longrightarrow> Read (set_Read led j ! i) = (i = j \<or> Read (led ! i))"
  by (cases "i = j") (simp_all add: set_Read_def)

text \<open>
  C5, as the specification states it: when the candidates of a debit are selected the
  debit is not yet marked read, and its own row is among the candidates. On the ledger of
  \<open>scenario1\<close> the loop selects row 0, the debit, and the candidates it selects for it
  are row 1 alone: line 66 marks the debit read before lines 76 to 81 select the rows
  that are not read.
\<close>

theorem debit_own_row_not_selected:
  "map fst (filtered (load_ledger scenario1 (init 3)) ''100'') = [0]
   \<and> map fst (unsettletrans
        (mark_read (hd (filtered (load_ledger scenario1 (init 3)) ''100''))
           (load_ledger scenario1 (init 3)))
        (snd (hd (filtered (load_ledger scenario1 (init 3)) ''100'')))) = [1]
   \<and> hd (filtered (load_ledger scenario1 (init 3)) ''100'')
       \<notin> set (unsettletrans
        (mark_read (hd (filtered (load_ledger scenario1 (init 3)) ''100''))
           (load_ledger scenario1 (init 3)))
        (snd (hd (filtered (load_ledger scenario1 (init 3)) ''100''))))"
  by code_simp

text \<open>
  C5, amended: the candidates of a debit are selected after the debit is marked read, so
  in every state the row of the debit is not among the candidates selected for it.
\<close>

theorem debit_not_among_candidates:
  "fst d \<notin> fst ` set (unsettletrans (mark_read d s) (snd d))"
  by (auto simp: set_unsettletrans mark_read_def Read_set_Read set_Read_def)


section \<open>The overlap score\<close>

lemma str_in_sublist: "str_in n1 n2 = sublist n1 n2"
  by (induction n2) (simp_all add: sublist_Cons_right)

lemma length_common:
  "length (common xs ys) =
     length (filter (\<lambda>(a, b). str_in a b \<or> str_in b a) (List.product xs ys))"
proof (induction xs)
  case Nil
  then show ?case by (simp add: common_def)
next
  case (Cons x xs)
  have "length (concat (map (\<lambda>n2. if str_in x n2 \<or> str_in n2 x then [x] else []) ys)) =
        length (filter (\<lambda>b. str_in x b \<or> str_in b x) ys)"
    by (induction ys) simp_all
  then show ?case using Cons by (simp add: common_def filter_map o_def)
qed

lemma overlap_card:
  "overlap A B = card {(a, b). a \<in> set A \<and> b \<in> set B \<and> (sublist a b \<or> sublist b a)}"
proof -
  let ?l = "filter (\<lambda>(a, b). str_in a b \<or> str_in b a) (List.product (remdups A) (remdups B))"
  have "distinct ?l" by (simp add: distinct_product)
  then have "card (set ?l) = length ?l" by (rule distinct_card)
  moreover have "set ?l = {(a, b). a \<in> set A \<and> b \<in> set B \<and> (sublist a b \<or> sublist b a)}"
    by (auto simp: str_in_sublist)
  ultimately show ?thesis by (simp add: overlap_def length_common)
qed

text \<open>
  C6: the overlap score of a debit and a candidate is the number of ordered pairs \<open>(a, b)\<close>
  of a token \<open>a\<close> of the debit and a token \<open>b\<close> of the candidate, each taken once however
  often it is extracted, with \<open>a\<close> a substring of \<open>b\<close> or \<open>b\<close> a substring of \<open>a\<close>; and a
  candidate of the frame that is not matched and lies within the days of tolerance is
  attached when its score is positive, whatever the score, and left alone when it is zero.
\<close>

theorem overlap_counts_containing_pairs:
  "overlap A B = card {(a, b). a \<in> set A \<and> b \<in> set B \<and> (sublist a b \<or> sublist b a)}
   \<and> (loc credits j = Some cr \<and> \<not> Matched cr
        \<and> \<not> outside (days_between (Date cr) (Date (snd d))) (transdays s) \<longrightarrow>
      credit_step a cc pc d credits g (j, cr) (b, s) =
        (if 0 < overlap (ExtractedNumbers (snd d)) (ExtractedNumbers cr)
         then Inr (Some j,
                   s\<lparr>append_debit := True,
                     ledger := set_Matched (ledger s) j,
                     results := results s @ [(j, settlement_record cr a cc pc g)]\<rparr>)
         else Inr (b, s)))"
  by (auto simp: overlap_card credit_step_eq qualifies_def attach_def)

definition scenario1_debit :: "nat \<times> row" where
  "scenario1_debit = (0, load_row (scenario1 ! 0))"

definition scenario1_credit :: "nat \<times> row" where
  "scenario1_credit = (1, load_row (scenario1 ! 1))"

definition scenario1_state :: LedgerSettlement where
  "scenario1_state = mark_read scenario1_debit (load_ledger scenario1 (init 3))"

theorem overlap_counts_containing_pairs_witness:
  "overlap [''12'', ''12'', ''7'', ''0120''] [''120'', ''7'', ''34''] = 3
   \<and> card {(a, b). a \<in> set [''12'', ''12'', ''7'', ''0120''] \<and> b \<in> set [''120'', ''7'', ''34'']
              \<and> (sublist a b \<or> sublist b a)} = 3
   \<and> credit_step ''100'' ''A'' ''X'' scenario1_debit [scenario1_credit] ''g''
        scenario1_credit (None, scenario1_state) =
      Inr (Some 1,
           scenario1_state\<lparr>append_debit := True,
             ledger := set_Matched (ledger scenario1_state) 1,
             results := [(1, settlement_record (snd scenario1_credit) ''100'' ''A'' ''X'' ''g'')]\<rparr>)"
proof -
  have ov: "overlap [''12'', ''12'', ''7'', ''0120''] [''120'', ''7'', ''34''] = 3"
    by code_simp
  have hyp: "loc [scenario1_credit] 1 = Some (snd scenario1_credit)
      \<and> \<not> Matched (snd scenario1_credit)
      \<and> \<not> outside (days_between (Date (snd scenario1_credit)) (Date (snd scenario1_debit)))
             (transdays scenario1_state)"
    by code_simp
  have pos: "0 < overlap (ExtractedNumbers (snd scenario1_debit))
                   (ExtractedNumbers (snd scenario1_credit))"
    by code_simp
  have res: "results scenario1_state = []"
    by code_simp
  have cr: "scenario1_credit = (1, snd scenario1_credit)"
    by (simp add: scenario1_credit_def)
  from overlap_counts_containing_pairs
         [of "[''12'', ''12'', ''7'', ''0120'']" "[''120'', ''7'', ''34'']"
             "[scenario1_credit]" 1 "snd scenario1_credit" scenario1_debit scenario1_state
             "''100''" "''A''" "''X''" "''g''" None]
  show ?thesis
    using ov hyp pos res cr by simp
qed


section \<open>The state after a debit\<close>

lemma length_set_Matched: "length (set_Matched led j) = length led"
  by (simp add: set_Matched_def)

lemma length_set_Read: "length (set_Read led j) = length led"
  by (simp add: set_Read_def)

lemma length_fold_set_Matched:
  "length (fold (\<lambda>j led. set_Matched led j) js led) = length led"
  by (induction js arbitrary: led) (simp_all add: length_set_Matched)

lemma Matched_set_Matched:
  "i < length led \<Longrightarrow> Matched (set_Matched led j ! i) = (i = j \<or> Matched (led ! i))"
  by (cases "i = j") (simp_all add: set_Matched_def)

lemma Matched_set_Read:
  "i < length led \<Longrightarrow> Matched (set_Read led j ! i) = Matched (led ! i)"
  by (cases "i = j") (simp_all add: set_Read_def)

lemma Matched_fold_set_Matched:
  "i < length led \<Longrightarrow>
     Matched (fold (\<lambda>j led. set_Matched led j) js led ! i) = (i \<in> set js \<or> Matched (led ! i))"
  by (induction js arbitrary: led) (auto simp: length_set_Matched Matched_set_Matched)

text \<open>Every column but the two flags.\<close>

definition fixed :: "row \<Rightarrow> row" where
  "fixed r = r\<lparr>Matched := False, Read := False\<rparr>"

lemma fixed_static: "fixed (static r) = fixed r"
  by (simp add: fixed_def static_def)

lemma fixed_set_Read: "map fixed (set_Read led j) = map fixed led"
proof (rule nth_equalityI)
  show "length (map fixed (set_Read led j)) = length (map fixed led)"
    by (simp add: set_Read_def)
next
  fix i
  assume "i < length (map fixed (set_Read led j))"
  then have "i < length led" by (simp add: set_Read_def)
  then show "map fixed (set_Read led j) ! i = map fixed led ! i"
    by (cases "i = j") (simp_all add: set_Read_def fixed_def)
qed

lemma fixed_set_Matched: "map fixed (set_Matched led j) = map fixed led"
proof -
  have "map fixed (map static (set_Matched led j)) = map fixed (map static led)"
    by (simp only: static_set_Matched)
  then show ?thesis by (simp add: o_def fixed_static)
qed

lemma fixed_fold_set_Matched:
  "map fixed (fold (\<lambda>j led. set_Matched led j) js led) = map fixed led"
  by (induction js arbitrary: led) (simp_all add: fixed_set_Matched)

lemma results_debit_outcome:
  "results (debit_outcome uuid4 a d s) = results s @ group_records uuid4 a d s"
  by (simp add: debit_outcome_def)

lemma length_debit_outcome:
  "length (ledger (debit_outcome uuid4 a d s)) = length (ledger s)"
  by (simp add: debit_outcome_def length_fold_set_Matched length_set_Read)

lemma fixed_debit_outcome:
  "map fixed (ledger (debit_outcome uuid4 a d s)) = map fixed (ledger s)"
  by (simp add: debit_outcome_def fixed_fold_set_Matched fixed_set_Read)

lemma Matched_debit_outcome:
  assumes "i < length (ledger s)"
  shows "Matched (ledger (debit_outcome uuid4 a d s) ! i) =
           (i \<in> fst ` set (group_records uuid4 a d s) \<or> Matched (ledger s ! i))"
  using assms
  by (simp add: debit_outcome_def Matched_fold_set_Matched length_set_Read Matched_set_Read)

lemma uuid_calls_debit_outcome:
  "uuid_calls (debit_outcome uuid4 a d s) = Suc (uuid_calls s)"
  by (simp add: debit_outcome_def)

lemma transdays_debit_outcome:
  "transdays (debit_outcome uuid4 a d s) = transdays s"
  by (simp add: debit_outcome_def)

lemma set_attached:
  "set (attached d s) =
     {jc \<in> set (unsettletrans (mark_read d s) (snd d)).
        0 < overlap (ExtractedNumbers (snd d)) (ExtractedNumbers (snd jc))}"
  by (auto simp: attached_def)

lemma fixed_nth:
  assumes "map fixed led = map fixed led'" "i < length led"
  shows "fixed (led ! i) = fixed (led' ! i)"
proof -
  have "length led' = length led" using assms(1) by (metis length_map)
  then show ?thesis using assms by (metis nth_map)
qed

lemma fixed_fields:
  "Date (fixed r) = Date r" "CostCentre (fixed r) = CostCentre r"
  "ProfitCentre (fixed r) = ProfitCentre r" "Journal_number (fixed r) = Journal_number r"
  "Voucher (fixed r) = Voucher r" "Description (fixed r) = Description r"
  "Amount (fixed r) = Amount r" "MainAccount (fixed r) = MainAccount r"
  "Type (fixed r) = Type r" "ExtractedNumbers (fixed r) = ExtractedNumbers r"
  by (simp_all add: fixed_def)

lemma attached_row:
  assumes "(j, cr) \<in> set (attached d s)"
  shows "j < length (ledger s) \<and> fixed cr = fixed (ledger s ! j) \<and> j \<noteq> fst d
         \<and> Date cr \<noteq> None \<and> Date (snd d) \<noteq> None
         \<and> CostCentre cr = CostCentre (snd d) \<and> ProfitCentre cr = ProfitCentre (snd d)"
proof -
  have mem: "(j, cr) \<in> set (unsettletrans (mark_read d s) (snd d))"
    using assms by (simp add: set_attached)
  then have j: "j < length (ledger s)" and cr: "cr = set_Read (ledger s) (fst d) ! j"
    and rd: "\<not> Read cr"
    and cc: "CostCentre cr = CostCentre (snd d)" "ProfitCentre cr = ProfitCentre (snd d)"
    and ge: "date_ge (Date cr) (minus_days (Date (snd d)) (transdays s))"
    by (auto simp: set_unsettletrans mark_read_def length_set_Read)
  have "fixed cr = map fixed (set_Read (ledger s) (fst d)) ! j"
    using j cr by (simp add: length_set_Read)
  then have fx: "fixed cr = fixed (ledger s ! j)"
    using j by (simp add: fixed_set_Read)
  have ne: "j \<noteq> fst d"
    using rd j by (auto simp: cr Read_set_Read)
  have "Date cr \<noteq> None \<and> Date (snd d) \<noteq> None"
    using ge by (cases "Date cr"; cases "Date (snd d)") (simp_all add: date_ge_def minus_days_def)
  then show ?thesis using j fx ne cc by simp
qed


section \<open>Invariants of a run\<close>

lemma process_mcp_invariant:
  assumes "P (load_ledger file (init days))"
    and "\<And>s a d. P s \<Longrightarrow> d \<in> set (filtered s a) \<Longrightarrow> P (debit_outcome uuid4 a d s)"
  shows "\<exists>s. process_mcp uuid4 days file = Inr (write_unsettled s) \<and> P s"
proof -
  from settle_ledger_invariant [of P, OF assms]
  obtain s where "settle_ledger uuid4 (load_ledger file (init days)) = Inr s" "P s"
    by blast
  then show ?thesis by (auto simp: process_mcp_def)
qed

text \<open>The columns of the ledger stay those of the file.\<close>

definition inv_fixed :: "csv_row list \<Rightarrow> LedgerSettlement \<Rightarrow> bool" where
  "inv_fixed file s = (map fixed (ledger s) = map fixed (map load_row file))"

text \<open>A row is matched exactly when a record of it stands in the results.\<close>

definition inv_flags :: "LedgerSettlement \<Rightarrow> bool" where
  "inv_flags s =
     ((\<forall>i < length (ledger s). Matched (ledger s ! i) = (i \<in> fst ` set (results s)))
      \<and> (\<forall>e \<in> set (results s). fst e < length (ledger s)))"

text \<open>Every record of the results carries an identifier that was drawn.\<close>

definition inv_ids :: "(nat \<Rightarrow> string) \<Rightarrow> LedgerSettlement \<Rightarrow> bool" where
  "inv_ids uuid4 s =
     (\<forall>e \<in> set (results s). \<exists>k < uuid_calls s. Settlement_Number (snd e) = uuid4 k)"

text \<open>A row without a date is not matched.\<close>

definition inv_NaT :: "LedgerSettlement \<Rightarrow> bool" where
  "inv_NaT s = (\<forall>i < length (ledger s). Date (ledger s ! i) = None \<longrightarrow> \<not> Matched (ledger s ! i))"

lemma filtered_row:
  assumes "d \<in> set (filtered s a)"
  shows "fst d < length (ledger s) \<and> snd d = ledger s ! fst d \<and> Type (snd d) = debit
         \<and> MainAccount (snd d) = Some a"
  using assms by (auto simp: set_filtered)

lemma group_records_cases:
  assumes "e \<in> set (group_records uuid4 a d s)"
  obtains (candidate) jc where "jc \<in> set (attached d s)"
      "e = (fst jc, settlement_record (snd jc) a (CostCentre (snd d)) (ProfitCentre (snd d))
                      (uuid4 (uuid_calls s)))"
    | (own) "attached d s \<noteq> []"
      "e = (fst d, settlement_record (snd d) a (CostCentre (snd d)) (ProfitCentre (snd d))
                     (uuid4 (uuid_calls s)))"
  using assms by (auto simp: group_records_def split: if_splits)

lemma group_records_labels:
  assumes "d \<in> set (filtered s a)" "e \<in> set (group_records uuid4 a d s)"
  shows "fst e < length (ledger s)"
  using assms(2)
proof (cases rule: group_records_cases)
  case (candidate jc)
  then show ?thesis using attached_row [of "fst jc" "snd jc" d s] by simp
next
  case own
  then show ?thesis using filtered_row [OF assms(1)] by simp
qed

lemma group_records_ids:
  assumes "e \<in> set (group_records uuid4 a d s)"
  shows "Settlement_Number (snd e) = uuid4 (uuid_calls s)"
  using assms
  by (auto simp: group_records_def settlement_record_def split: if_splits)

lemma inv_fixed_init: "inv_fixed file (load_ledger file (init days))"
  by (simp add: inv_fixed_def load_ledger_def)

lemma inv_fixed_step: "inv_fixed file s \<Longrightarrow> inv_fixed file (debit_outcome uuid4 a d s)"
  by (simp add: inv_fixed_def fixed_debit_outcome)

lemma inv_flags_init: "inv_flags (load_ledger file (init days))"
  by (simp add: inv_flags_def load_ledger_def init_def load_row_def)

lemma inv_flags_step:
  assumes "inv_flags s" "d \<in> set (filtered s a)"
  shows "inv_flags (debit_outcome uuid4 a d s)"
  using assms group_records_labels [OF assms(2)]
  by (auto simp: inv_flags_def length_debit_outcome Matched_debit_outcome results_debit_outcome)

lemma inv_ids_init: "inv_ids uuid4 (load_ledger file (init days))"
  by (simp add: inv_ids_def load_ledger_def init_def)

lemma inv_ids_step:
  assumes "inv_ids uuid4 s"
  shows "inv_ids uuid4 (debit_outcome uuid4 a d s)"
  unfolding inv_ids_def results_debit_outcome uuid_calls_debit_outcome
proof
  fix e
  assume "e \<in> set (results s @ group_records uuid4 a d s)"
  then consider "e \<in> set (results s)" | "e \<in> set (group_records uuid4 a d s)" by auto
  then show "\<exists>k < Suc (uuid_calls s). Settlement_Number (snd e) = uuid4 k"
  proof cases
    case 1
    then obtain k where "k < uuid_calls s" "Settlement_Number (snd e) = uuid4 k"
      using assms by (auto simp: inv_ids_def)
    then show ?thesis by (intro exI [of _ k]) simp
  next
    case 2
    then show ?thesis using group_records_ids by blast
  qed
qed

lemma inv_NaT_init: "inv_NaT (load_ledger file (init days))"
  by (simp add: inv_NaT_def load_ledger_def init_def load_row_def)

lemma group_records_dated:
  assumes "d \<in> set (filtered s a)" "e \<in> set (group_records uuid4 a d s)"
  shows "Date (ledger s ! fst e) \<noteq> None"
  using assms(2)
proof (cases rule: group_records_cases)
  case (candidate jc)
  from attached_row [of "fst jc" "snd jc" d s] candidate(1)
  have "fixed (snd jc) = fixed (ledger s ! fst jc)" "Date (snd jc) \<noteq> None" by simp_all
  then have "Date (ledger s ! fst jc) \<noteq> None" by (metis fixed_fields(1))
  then show ?thesis using candidate(2) by simp
next
  case own
  then obtain jc0 where "(fst jc0, snd jc0) \<in> set (attached d s)"
    by (cases "attached d s") auto
  from attached_row [OF this] have "Date (snd d) \<noteq> None" by simp
  then show ?thesis using own(2) filtered_row [OF assms(1)] by simp
qed

lemma Date_debit_outcome:
  assumes "i < length (ledger s)"
  shows "Date (ledger (debit_outcome uuid4 a d s) ! i) = Date (ledger s ! i)"
proof -
  have "fixed (ledger (debit_outcome uuid4 a d s) ! i) = fixed (ledger s ! i)"
    using fixed_nth [OF fixed_debit_outcome, of i uuid4 a d s] assms
    by (simp add: length_debit_outcome)
  then show ?thesis by (metis fixed_fields(1))
qed

lemma inv_NaT_step:
  assumes "inv_NaT s" "d \<in> set (filtered s a)"
  shows "inv_NaT (debit_outcome uuid4 a d s)"
  unfolding inv_NaT_def length_debit_outcome
proof (intro allI impI)
  fix i
  assume i: "i < length (ledger s)"
    and "Date (ledger (debit_outcome uuid4 a d s) ! i) = None"
  then have none: "Date (ledger s ! i) = None" by (simp add: Date_debit_outcome)
  then have "\<not> Matched (ledger s ! i)" using assms(1) i by (simp add: inv_NaT_def)
  moreover have "i \<notin> fst ` set (group_records uuid4 a d s)"
    using group_records_dated [OF assms(2)] none by force
  ultimately show "\<not> Matched (ledger (debit_outcome uuid4 a d s) ! i)"
    using i by (simp add: Matched_debit_outcome)
qed


text \<open>The columns that a record of the results copies from its row.\<close>

definition same_entry :: "'a entry_scheme \<Rightarrow> 'b entry_scheme \<Rightarrow> bool" where
  "same_entry r x =
     (Journal_number r = Journal_number x \<and> Voucher r = Voucher x \<and> Date r = Date x
      \<and> CostCentre r = CostCentre x \<and> ProfitCentre r = ProfitCentre x
      \<and> Description r = Description x \<and> Amount r = Amount x)"

definition inv_content :: "LedgerSettlement \<Rightarrow> bool" where
  "inv_content s = (\<forall>e \<in> set (results s). same_entry (snd e) (ledger s ! fst e))"

lemma same_entry_fixed: "same_entry r (fixed x) = same_entry r x"
  by (simp add: same_entry_def fixed_def)

lemma same_entry_cong:
  assumes "fixed x = fixed y"
  shows "same_entry r x = same_entry r y"
  using same_entry_fixed [of r x] same_entry_fixed [of r y] assms by simp

lemma same_entry_load_row: "same_entry r (load_row x) = same_entry r x"
  by (simp add: same_entry_def load_row_def)

lemma fixed_nth_debit_outcome:
  assumes "i < length (ledger s)"
  shows "fixed (ledger (debit_outcome uuid4 a d s) ! i) = fixed (ledger s ! i)"
  using fixed_nth [OF fixed_debit_outcome, of i uuid4 a d s] assms
  by (simp add: length_debit_outcome)

lemma group_records_content:
  assumes "d \<in> set (filtered s a)" "e \<in> set (group_records uuid4 a d s)"
  shows "same_entry (snd e) (ledger s ! fst e)"
  using assms(2)
proof (cases rule: group_records_cases)
  case (candidate jc)
  from attached_row [of "fst jc" "snd jc" d s] candidate(1)
  have fx: "fixed (snd jc) = fixed (ledger s ! fst jc)"
    and cc: "CostCentre (snd jc) = CostCentre (snd d)" "ProfitCentre (snd jc) = ProfitCentre (snd d)"
    by simp_all
  have "same_entry (snd e) (snd jc)"
    using candidate(2) cc by (simp add: same_entry_def settlement_record_def)
  then show ?thesis using same_entry_cong [OF fx, of "snd e"] candidate(2) by simp
next
  case own
  then show ?thesis
    using filtered_row [OF assms(1)] by (simp add: same_entry_def settlement_record_def)
qed

lemma inv_content_init: "inv_content (load_ledger file (init days))"
  by (simp add: inv_content_def load_ledger_def init_def)

lemma inv_content_step:
  assumes "inv_content s" "inv_flags s" "d \<in> set (filtered s a)"
  shows "inv_content (debit_outcome uuid4 a d s)"
  unfolding inv_content_def results_debit_outcome
proof
  fix e
  assume "e \<in> set (results s @ group_records uuid4 a d s)"
  then consider "e \<in> set (results s)" | "e \<in> set (group_records uuid4 a d s)" by auto
  then have "fst e < length (ledger s) \<and> same_entry (snd e) (ledger s ! fst e)"
  proof cases
    case 1
    then show ?thesis using assms(1,2) by (simp add: inv_content_def inv_flags_def)
  next
    case 2
    then show ?thesis
      using group_records_content [OF assms(3)] group_records_labels [OF assms(3)] by simp
  qed
  then show "same_entry (snd e) (ledger (debit_outcome uuid4 a d s) ! fst e)"
    using same_entry_cong [OF fixed_nth_debit_outcome] by blast
qed

definition run_inv :: "(nat \<Rightarrow> string) \<Rightarrow> csv_row list \<Rightarrow> LedgerSettlement \<Rightarrow> bool" where
  "run_inv uuid4 file s =
     (inv_fixed file s \<and> inv_flags s \<and> inv_ids uuid4 s \<and> inv_NaT s \<and> inv_content s)"

lemma process_mcp_run_inv:
  "\<exists>s. process_mcp uuid4 days file = Inr (write_unsettled s) \<and> run_inv uuid4 file s"
proof (rule process_mcp_invariant)
  show "run_inv uuid4 file (load_ledger file (init days))"
    by (simp add: run_inv_def inv_fixed_init inv_flags_init inv_ids_init inv_NaT_init
          inv_content_init)
next
  fix s a d
  assume "run_inv uuid4 file s" "d \<in> set (filtered s a)"
  then show "run_inv uuid4 file (debit_outcome uuid4 a d s)"
    by (simp add: run_inv_def inv_fixed_step inv_flags_step inv_ids_step inv_NaT_step
          inv_content_step)
qed

lemma inv_fixed_length: "inv_fixed file s \<Longrightarrow> length (ledger s) = length file"
  unfolding inv_fixed_def by (metis length_map)

lemma inv_fixed_nth:
  assumes "inv_fixed file s" "i < length file"
  shows "fixed (ledger s ! i) = fixed (load_row (file ! i))"
proof -
  have "i < length (ledger s)" using assms by (simp add: inv_fixed_length)
  from fixed_nth [OF assms(1) [unfolded inv_fixed_def] this]
  show ?thesis using assms(2) by simp
qed

text \<open>The records that \<open>write_unsettled\<close> appends.\<close>

definition unsettled_rows :: "LedgerSettlement \<Rightarrow> (nat \<times> result) list" where
  "unsettled_rows s =
     map (\<lambda>(i, remaining_row). (i, unsettled_record remaining_row))
       (select (\<lambda>r. \<not> Matched r) (ledger s))"

lemma results_write_unsettled:
  "results (write_unsettled s) = results s @ unsettled_rows s"
  by (simp add: write_unsettled_def unsettled_rows_def)

lemma set_unsettled_rows:
  "set (unsettled_rows s) =
     {(i, unsettled_record (ledger s ! i)) | i. i < length (ledger s) \<and> \<not> Matched (ledger s ! i)}"
  by (auto simp: unsettled_rows_def set_select)

lemma unsettled_rows_empty_id:
  "e \<in> set (unsettled_rows s) \<Longrightarrow> Settlement_Number (snd e) = ''''"
  by (auto simp: set_unsettled_rows unsettled_record_def)

section \<open>Matched and unsettled rows of the output\<close>

text \<open>
  C4: in the output of every run, the rows of the ledger that have a record with a
  settlement identifier and the rows that have a record with the empty identifier are
  disjoint sets, and together they are all the rows of the input; every record of the
  output copies the columns of the row it stands for. The identifiers drawn are not empty
  (an identifier is the 36 characters of \<^verbatim>\<open>str(uuid.uuid4())\<close>).
\<close>

theorem matched_and_unsettled_partition:
  assumes "\<forall>k. uuid4 k \<noteq> ''''"
  shows "\<exists>s. process_mcp uuid4 days file = Inr s
           \<and> {i. \<exists>r. (i, r) \<in> set (results s) \<and> Settlement_Number r \<noteq> ''''}
               \<inter> {i. \<exists>r. (i, r) \<in> set (results s) \<and> Settlement_Number r = ''''} = {}
           \<and> {i. \<exists>r. (i, r) \<in> set (results s) \<and> Settlement_Number r \<noteq> ''''}
               \<union> {i. \<exists>r. (i, r) \<in> set (results s) \<and> Settlement_Number r = ''''}
               = {..<length file}
           \<and> (\<forall>(i, r) \<in> set (results s). i < length file \<and> same_entry r (file ! i))"
proof -
  obtain s where run: "process_mcp uuid4 days file = Inr (write_unsettled s)"
    and inv: "run_inv uuid4 file s"
    using process_mcp_run_inv by blast
  have len: "length (ledger s) = length file"
    using inv by (simp add: run_inv_def inv_fixed_length)
  have ids: "Settlement_Number r \<noteq> ''''" if "(i, r) \<in> set (results s)" for i r
  proof -
    have "\<exists>k < uuid_calls s. Settlement_Number (snd (i, r)) = uuid4 k"
      using inv that unfolding run_inv_def inv_ids_def by blast
    then show ?thesis using assms by (metis snd_conv)
  qed
  have flags: "Matched (ledger s ! i) = (i \<in> fst ` set (results s))"
    if "i < length file" for i
    using inv that len by (simp add: run_inv_def inv_flags_def)
  have labels: "i < length file" if "(i, r) \<in> set (results s)" for i r
    using inv that len by (force simp: run_inv_def inv_flags_def)
  let ?out = "results (write_unsettled s)"
  have M: "{i. \<exists>r. (i, r) \<in> set ?out \<and> Settlement_Number r \<noteq> ''''}
             = {i. i < length file \<and> Matched (ledger s ! i)}"
  proof -
    have "{i. \<exists>r. (i, r) \<in> set ?out \<and> Settlement_Number r \<noteq> ''''} = fst ` set (results s)"
      using ids unsettled_rows_empty_id [of _ s]
      by (force simp: results_write_unsettled)
    also have "\<dots> = {i. i < length file \<and> Matched (ledger s ! i)}"
      using flags labels by force
    finally show ?thesis .
  qed
  have U: "{i. \<exists>r. (i, r) \<in> set ?out \<and> Settlement_Number r = ''''}
             = {i. i < length file \<and> \<not> Matched (ledger s ! i)}"
    using ids len by (auto simp: results_write_unsettled set_unsettled_rows unsettled_record_def)
  have C: "i < length file \<and> same_entry r (file ! i)" if mem: "(i, r) \<in> set ?out" for i r
  proof -
    from mem consider "(i, r) \<in> set (results s)" | "(i, r) \<in> set (unsettled_rows s)"
      by (auto simp: results_write_unsettled)
    then have "i < length file \<and> same_entry r (ledger s ! i)"
    proof cases
      case 1
      then show ?thesis using inv labels by (force simp: run_inv_def inv_content_def)
    next
      case 2
      then show ?thesis
        using len by (auto simp: set_unsettled_rows unsettled_record_def same_entry_def)
    qed
    moreover have "fixed (ledger s ! i) = fixed (load_row (file ! i))" if "i < length file"
      using inv that by (simp add: run_inv_def inv_fixed_nth)
    ultimately show ?thesis
      using same_entry_cong [of "ledger s ! i" "load_row (file ! i)" r]
      by (simp add: same_entry_load_row)
  qed
  show ?thesis
    unfolding run
    apply (intro exI [of _ "write_unsettled s"] conjI refl)
    subgoal using M U by auto
    subgoal using M U by auto
    subgoal using C by auto
    done
qed

text \<open>The debit and the credit of \<open>scenario1\<close>, and a credit ten days after the debit.\<close>

definition scenario2 :: "csv_row list" where
  "scenario2 = scenario1 @ [tx ''100'' 20 ''INV1002 again'' 100]"

lemma example_uuid4_not_empty: "example_uuid4 k \<noteq> ''''"
  by (simp add: example_uuid4_def)

theorem matched_and_unsettled_partition_witness:
  "(\<forall>k. example_uuid4 k \<noteq> '''')
   \<and> (\<exists>s. process_mcp example_uuid4 3 scenario2 = Inr s
           \<and> map (\<lambda>(i, r). (i, Settlement_Number r)) (results s) = [(1, ''u''), (0, ''u''), (2, '''')]
           \<and> {i. \<exists>r. (i, r) \<in> set (results s) \<and> Settlement_Number r \<noteq> ''''}
               \<inter> {i. \<exists>r. (i, r) \<in> set (results s) \<and> Settlement_Number r = ''''} = {}
           \<and> {i. \<exists>r. (i, r) \<in> set (results s) \<and> Settlement_Number r \<noteq> ''''}
               \<union> {i. \<exists>r. (i, r) \<in> set (results s) \<and> Settlement_Number r = ''''}
               = {..<3})"
proof -
  have ne: "\<forall>k. example_uuid4 k \<noteq> ''''"
    by (simp add: example_uuid4_not_empty)
  have run: "map_sum id (\<lambda>s. map (\<lambda>(i, r). (i, Settlement_Number r)) (results s))
               (process_mcp example_uuid4 3 scenario2) = Inr [(1, ''u''), (0, ''u''), (2, '''')]"
    by code_simp
  have len: "length scenario2 = 3"
    by (simp add: scenario2_def scenario1_def)
  from matched_and_unsettled_partition [OF ne, of 3 scenario2]
  show ?thesis using ne run len by auto
qed


section \<open>Rows without a date\<close>

lemma distinct_fst_unsettled_rows: "distinct (map fst (unsettled_rows s))"
proof -
  have "map fst (unsettled_rows s) = map fst (select (\<lambda>r. \<not> Matched r) (ledger s))"
    by (simp add: unsettled_rows_def o_def case_prod_unfold)
  then show ?thesis by (simp add: distinct_fst_select)
qed

lemma filter_label_single:
  assumes "distinct (map fst xs)" "(i, r) \<in> set xs"
  shows "filter (\<lambda>e. fst e = i) xs = [(i, r)]"
  using assms
proof (induction xs)
  case Nil
  then show ?case by simp
next
  case (Cons x xs)
  show ?case
  proof (cases "fst x = i")
    case True
    then have "i \<notin> fst ` set xs" using Cons.prems(1) by auto
    then have "filter (\<lambda>e. fst e = i) xs = []" by (auto simp: filter_empty_conv)
    moreover have "x = (i, r)"
      using Cons.prems(2) \<open>i \<notin> fst ` set xs\<close> by (metis fst_conv image_eqI set_ConsD)
    ultimately show ?thesis by simp
  next
    case False
    then show ?thesis using Cons by auto
  qed
qed

text \<open>
  C8: a comparison of dates with a missing date on either side is false; a row without a
  date is among the candidates of no debit, and a debit without a date has no candidates;
  and at the end of every run a row without a date has one record in the output, the
  record of an unsettled row, with the empty settlement identifier.
\<close>

theorem row_without_date_stays_unsettled:
  "\<not> date_ge None x \<and> \<not> date_ge x None \<and> \<not> date_le None x \<and> \<not> date_le x None
   \<and> (\<forall>(j, cr) \<in> set (unsettletrans st debit_r). Date cr \<noteq> None \<and> Date debit_r \<noteq> None)
   \<and> (i < length file \<and> Date (file ! i) = None \<longrightarrow>
        (\<exists>s. process_mcp uuid4 days file = Inr s
           \<and> filter (\<lambda>e. fst e = i) (results s) = [(i, unsettled_record (load_row (file ! i)))]
           \<and> Settlement_Number (unsettled_record (load_row (file ! i))) = ''''))"
proof -
  have cmp: "\<not> date_ge None x \<and> \<not> date_ge x None \<and> \<not> date_le None x \<and> \<not> date_le x None"
    by (cases x) (simp_all add: date_ge_def date_le_def)
  have cand: "Date cr \<noteq> None \<and> Date debit_r \<noteq> None"
    if "(j, cr) \<in> set (unsettletrans st debit_r)" for j cr
  proof -
    have "date_ge (Date cr) (minus_days (Date debit_r) (transdays st))"
      using that by (auto simp: set_unsettletrans)
    then show ?thesis
      by (cases "Date cr"; cases "Date debit_r") (simp_all add: date_ge_def minus_days_def)
  qed
  have run: "\<exists>s. process_mcp uuid4 days file = Inr s
           \<and> filter (\<lambda>e. fst e = i) (results s) = [(i, unsettled_record (load_row (file ! i)))]
           \<and> Settlement_Number (unsettled_record (load_row (file ! i))) = ''''"
    if i: "i < length file" and none: "Date (file ! i) = None"
  proof -
    obtain s where run: "process_mcp uuid4 days file = Inr (write_unsettled s)"
      and inv: "run_inv uuid4 file s"
      using process_mcp_run_inv by blast
    have len: "length (ledger s) = length file"
      using inv by (simp add: run_inv_def inv_fixed_length)
    have fx: "fixed (ledger s ! i) = fixed (load_row (file ! i))"
      using inv i by (simp add: run_inv_def inv_fixed_nth)
    have "Date (ledger s ! i) = Date (load_row (file ! i))"
      using fx by (metis fixed_fields(1))
    then have "Date (ledger s ! i) = None" using none by (simp add: load_row_def)
    then have nm: "\<not> Matched (ledger s ! i)"
      using inv i len by (simp add: run_inv_def inv_NaT_def)
    then have "i \<notin> fst ` set (results s)"
      using inv i len by (simp add: run_inv_def inv_flags_def)
    then have 1: "filter (\<lambda>e. fst e = i) (results s) = []"
      by (auto simp: filter_empty_conv)
    have ur: "unsettled_record (ledger s ! i) = unsettled_record (load_row (file ! i))"
    proof -
      have "unsettled_record r = unsettled_record (fixed r)" for r
        by (simp add: unsettled_record_def fixed_def)
      then show ?thesis using fx by metis
    qed
    have "(i, unsettled_record (load_row (file ! i))) \<in> set (unsettled_rows s)"
      using nm i len ur by (auto simp: set_unsettled_rows)
    from filter_label_single [OF distinct_fst_unsettled_rows this]
    have 2: "filter (\<lambda>e. fst e = i) (unsettled_rows s)
               = [(i, unsettled_record (load_row (file ! i)))]" .
    show ?thesis
      using run 1 2 by (simp add: results_write_unsettled unsettled_record_def)
  qed
  show ?thesis using cmp cand run by blast
qed

text \<open>A debit without a date, and a credit with the same numbers in its description.\<close>

definition scenario3 :: "csv_row list" where
  "scenario3 = [(tx ''100'' 10 ''INV1002'' (- 100))\<lparr>Date := None\<rparr>,
                tx ''100'' 11 ''Payment for INV1002'' 100]"

theorem row_without_date_stays_unsettled_witness:
  "0 < length scenario3 \<and> Date (scenario3 ! 0) = None
   \<and> (\<exists>s. process_mcp example_uuid4 3 scenario3 = Inr s
         \<and> filter (\<lambda>e. fst e = 0) (results s) = [(0, unsettled_record (load_row (scenario3 ! 0)))]
         \<and> map (\<lambda>(i, r). (i, Settlement_Number r)) (results s) = [(0, ''''), (1, '''')])"
proof -
  have hyp: "0 < length scenario3 \<and> Date (scenario3 ! 0) = None"
    by (simp add: scenario3_def)
  have run: "map_sum id (\<lambda>s. map (\<lambda>(i, r). (i, Settlement_Number r)) (results s))
               (process_mcp example_uuid4 3 scenario3) = Inr [(0, ''''), (1, '''')]"
    by code_simp
  from row_without_date_stays_unsettled
         [of None "init 3" "load_row (scenario3 ! 0)" 0 scenario3 example_uuid4 3]
  show ?thesis using hyp run by auto
qed


section \<open>The order of the records of a group\<close>

lemma date_key_le:
  assumes "date_key x \<le> date_key y" "x \<noteq> None" "y \<noteq> None"
  shows "date_le x y"
  using assms by (cases x; cases y) (simp_all add: date_key_def date_le_def)

lemma sorted_attached:
  "sorted_wrt (\<lambda>x y. date_le (Date (snd x)) (Date (snd y))) (attached d s)"
proof -
  let ?key = "\<lambda>(i, r). date_key (Date r)"
  have "sorted (map ?key (attached d s))"
    unfolding attached_def unsettletrans_def sort_values_def
    by (intro sorted_filter sorted_sort_key)
  then have "sorted_wrt (\<lambda>x y. ?key x \<le> ?key y) (attached d s)"
    by (simp add: sorted_map)
  moreover have "date_le (Date (snd x)) (Date (snd y))"
    if "x \<in> set (attached d s)" "y \<in> set (attached d s)" "?key x \<le> ?key y" for x y
    using that attached_row [of "fst x" "snd x" d s] attached_row [of "fst y" "snd y" d s]
    by (intro date_key_le) (simp_all add: case_prod_unfold)
  ultimately show ?thesis by (rule sorted_wrt_mono_rel [rotated])
qed

definition group_shape :: "(nat \<times> result) list \<Rightarrow> bool" where
  "group_shape grp =
     (grp = [] \<or> (\<exists>cs d. grp = cs @ [d] \<and> cs \<noteq> []
                    \<and> sorted_wrt (\<lambda>x y. date_le (Date (snd x)) (Date (snd y))) cs
                    \<and> Amount (snd d) < 0))"

lemma Date_settlement_record: "Date (settlement_record r a cc pc g) = Date r"
  by (simp add: settlement_record_def)

lemma Amount_settlement_record: "Amount (settlement_record r a cc pc g) = Amount r"
  by (simp add: settlement_record_def)

lemma debit_amount:
  assumes "inv_fixed file s" "d \<in> set (filtered s a)"
  shows "Amount (snd d) < 0"
proof -
  have i: "fst d < length (ledger s)" and d: "snd d = ledger s ! fst d"
    and t: "Type (snd d) = debit"
    using filtered_row [OF assms(2)] by blast+
  have "fst d < length file" using i assms(1) by (simp add: inv_fixed_length)
  from inv_fixed_nth [OF assms(1) this]
  have "fixed (snd d) = fixed (load_row (file ! fst d))" by (simp add: d)
  then have "Type (snd d) = Type (load_row (file ! fst d))"
    and "Amount (snd d) = Amount (load_row (file ! fst d))"
    by (metis fixed_fields(9), metis fixed_fields(7))
  then show ?thesis using t by (simp add: load_row_def split: if_splits)
qed

lemma group_shape_group_records:
  assumes "inv_fixed file s" "d \<in> set (filtered s a)"
  shows "group_shape (group_records uuid4 a d s)"
proof (cases "attached d s = []")
  case True
  then show ?thesis by (simp add: group_shape_def group_records_def)
next
  case False
  let ?rec = "\<lambda>jc. (fst jc, settlement_record (snd jc) a (CostCentre (snd d))
                                  (ProfitCentre (snd d)) (uuid4 (uuid_calls s)))"
  have 1: "group_records uuid4 a d s = map ?rec (attached d s) @ [?rec d]"
    using False by (simp add: group_records_def)
  have 2: "map ?rec (attached d s) \<noteq> []" using False by simp
  have 3: "sorted_wrt (\<lambda>x y. date_le (Date (snd x)) (Date (snd y)))
                   (map ?rec (attached d s))"
    using sorted_attached [of d s] by (simp add: sorted_wrt_map Date_settlement_record)
  have 4: "Amount (snd (?rec d)) < 0"
    using debit_amount [OF assms] by (simp add: Amount_settlement_record)
  show ?thesis
    unfolding group_shape_def
    by (rule disjI2, rule exI [of _ "map ?rec (attached d s)"], rule exI [of _ "?rec d"])
       (intro conjI 1 2 3 4)
qed

definition inv_groups :: "(nat \<Rightarrow> string) \<Rightarrow> LedgerSettlement \<Rightarrow> bool" where
  "inv_groups uuid4 s =
     (\<forall>k. group_shape (filter (\<lambda>e. Settlement_Number (snd e) = uuid4 k) (results s)))"

lemma inv_groups_init: "inv_groups uuid4 (load_ledger file (init days))"
  by (simp add: inv_groups_def load_ledger_def init_def group_shape_def)

lemma inv_groups_step:
  assumes "inj uuid4" "inv_groups uuid4 s" "inv_ids uuid4 s" "inv_fixed file s"
    "d \<in> set (filtered s a)"
  shows "inv_groups uuid4 (debit_outcome uuid4 a d s)"
  unfolding inv_groups_def results_debit_outcome
proof
  fix k
  let ?P = "\<lambda>e. Settlement_Number (snd e) = uuid4 k"
  show "group_shape (filter ?P (results s @ group_records uuid4 a d s))"
  proof (cases "k = uuid_calls s")
    case True
    have "\<not> ?P e" if "e \<in> set (results s)" for e
    proof -
      have "\<exists>k' < uuid_calls s. Settlement_Number (snd e) = uuid4 k'"
        using assms(3) [unfolded inv_ids_def] that by (rule bspec)
      then obtain k' where "k' < uuid_calls s" "Settlement_Number (snd e) = uuid4 k'"
        by (elim exE conjE)
      then have "k' \<noteq> k" "Settlement_Number (snd e) = uuid4 k'" using True by simp_all
      then show ?thesis using injD [OF assms(1), of k' k] by metis
    qed
    then have "filter ?P (results s) = []" by (auto simp: filter_empty_conv)
    moreover have "filter ?P (group_records uuid4 a d s) = group_records uuid4 a d s"
      unfolding filter_id_conv using True group_records_ids [of _ uuid4 a d s] by blast
    ultimately show ?thesis
      using group_shape_group_records [OF assms(4,5)] by simp
  next
    case False
    have "\<not> ?P e" if "e \<in> set (group_records uuid4 a d s)" for e
      using group_records_ids [OF that] False injD [OF assms(1), of "uuid_calls s" k]
      by metis
    then have "filter ?P (group_records uuid4 a d s) = []" by (auto simp: filter_empty_conv)
    then show ?thesis using assms(2) by (simp add: inv_groups_def)
  qed
qed

lemma process_mcp_groups:
  assumes "inj uuid4"
  shows "\<exists>s. process_mcp uuid4 days file = Inr (write_unsettled s)
           \<and> inv_groups uuid4 s \<and> inv_ids uuid4 s"
proof -
  let ?P = "\<lambda>s. inv_groups uuid4 s \<and> inv_ids uuid4 s \<and> inv_fixed file s"
  have "\<exists>s. process_mcp uuid4 days file = Inr (write_unsettled s) \<and> ?P s"
  proof (rule process_mcp_invariant)
    show "?P (load_ledger file (init days))"
      by (simp add: inv_groups_init inv_ids_init inv_fixed_init)
  next
    fix s a d
    assume "?P s" "d \<in> set (filtered s a)"
    then have g: "inv_groups uuid4 s" and i: "inv_ids uuid4 s" and f: "inv_fixed file s"
      and d: "d \<in> set (filtered s a)" by simp_all
    show "?P (debit_outcome uuid4 a d s)"
      by (intro conjI inv_groups_step [OF assms g i f d] inv_ids_step [OF i]
            inv_fixed_step [OF f])
  qed
  then show ?thesis by blast
qed


lemma example_uuid4_inj: "inj example_uuid4"
proof (rule injI)
  fix x y
  assume "example_uuid4 x = example_uuid4 y"
  then have "length (example_uuid4 x) = length (example_uuid4 y)" by simp
  then show "x = y" by (simp add: example_uuid4_def)
qed

text \<open>
  C10: the pass for a debit appends nothing, or the records of the candidates it attaches,
  in ascending order of date, and then the record of the debit; and in the output of a run
  the records that carry one settlement identifier are, in the order of the output, one or
  more records in ascending order of date followed by the record of a debit, which is the
  last of the group (\<open>group_shape\<close>). The identifiers drawn are distinct and not empty.
\<close>

theorem group_records_in_date_order:
  assumes "inj uuid4" "\<forall>k. uuid4 k \<noteq> ''''"
  shows "(\<exists>s' cs. settle_debit uuid4 a d st = Inr s'
            \<and> set cs \<subseteq> set (unsettletrans (mark_read d st) (snd d))
            \<and> sorted_wrt (\<lambda>x y. date_le (Date (snd x)) (Date (snd y))) cs
            \<and> results s' = results st @
                 (if cs = [] then []
                  else map (\<lambda>jc. (fst jc, settlement_record (snd jc) a (CostCentre (snd d))
                                     (ProfitCentre (snd d)) (uuid4 (uuid_calls st))))
                         (cs @ [d])))
         \<and> (\<exists>s. process_mcp uuid4 days file = Inr s
               \<and> (\<forall>g. g \<noteq> '''' \<longrightarrow>
                     group_shape (filter (\<lambda>e. Settlement_Number (snd e) = g) (results s))))"
proof
  have "set (attached d st) \<subseteq> set (unsettletrans (mark_read d st) (snd d))"
    by (auto simp: set_attached)
  moreover have "results (debit_outcome uuid4 a d st) = results st @
                 (if attached d st = [] then []
                  else map (\<lambda>jc. (fst jc, settlement_record (snd jc) a (CostCentre (snd d))
                                     (ProfitCentre (snd d)) (uuid4 (uuid_calls st))))
                         (attached d st @ [d]))"
    by (simp add: results_debit_outcome group_records_def)
  ultimately show "\<exists>s' cs. settle_debit uuid4 a d st = Inr s'
            \<and> set cs \<subseteq> set (unsettletrans (mark_read d st) (snd d))
            \<and> sorted_wrt (\<lambda>x y. date_le (Date (snd x)) (Date (snd y))) cs
            \<and> results s' = results st @
                 (if cs = [] then []
                  else map (\<lambda>jc. (fst jc, settlement_record (snd jc) a (CostCentre (snd d))
                                     (ProfitCentre (snd d)) (uuid4 (uuid_calls st))))
                         (cs @ [d]))"
    using settle_debit_eq [of uuid4 a d st] sorted_attached [of d st]
    by (intro exI [of _ "debit_outcome uuid4 a d st"] exI [of _ "attached d st"] conjI)
next
  obtain s where run: "process_mcp uuid4 days file = Inr (write_unsettled s)"
    and grp: "inv_groups uuid4 s" and ids: "inv_ids uuid4 s"
    using process_mcp_groups [OF assms(1)] by blast
  have "group_shape (filter (\<lambda>e. Settlement_Number (snd e) = g) (results (write_unsettled s)))"
    if g: "g \<noteq> ''''" for g
  proof -
    let ?P = "\<lambda>e. Settlement_Number (snd e) = g"
    have "\<not> ?P e" if "e \<in> set (unsettled_rows s)" for e
      using unsettled_rows_empty_id [OF that] g by simp
    then have u: "filter ?P (unsettled_rows s) = []" by (auto simp: filter_empty_conv)
    show ?thesis
    proof (cases "g \<in> range uuid4")
      case True
      then obtain k where "g = uuid4 k" by (elim rangeE)
      then show ?thesis
        using grp u by (simp add: inv_groups_def results_write_unsettled)
    next
      case False
      have "\<not> ?P e" if "e \<in> set (results s)" for e
      proof -
        have "\<exists>k < uuid_calls s. Settlement_Number (snd e) = uuid4 k"
          using ids [unfolded inv_ids_def] that by (rule bspec)
        then show ?thesis using False by (metis rangeI)
      qed
      then have "filter ?P (results s) = []" by (auto simp: filter_empty_conv)
      then show ?thesis using u by (simp add: results_write_unsettled group_shape_def)
    qed
  qed
  then show "\<exists>s. process_mcp uuid4 days file = Inr s
               \<and> (\<forall>g. g \<noteq> '''' \<longrightarrow>
                     group_shape (filter (\<lambda>e. Settlement_Number (snd e) = g) (results s)))"
    unfolding run by (intro exI [of _ "write_unsettled s"] conjI refl allI impI)
qed

text \<open>A debit and two credits with the number 55, one the day before the debit and one two
  days after it.\<close>

definition scenario4 :: "csv_row list" where
  "scenario4 = [tx ''100'' 10 ''ref 55'' (- 100), tx ''100'' 12 ''pay 55'' 60,
                tx ''100'' 9 ''55 part'' 40]"

theorem group_records_in_date_order_witness:
  "inj example_uuid4 \<and> (\<forall>k. example_uuid4 k \<noteq> '''')
   \<and> (\<exists>s. process_mcp example_uuid4 3 scenario4 = Inr s
         \<and> map (\<lambda>(i, r). (i, Date r, Settlement_Number r)) (results s)
             = [(2, Some (9 * day_ns), ''u''), (1, Some (12 * day_ns), ''u''),
                (0, Some (10 * day_ns), ''u'')]
         \<and> group_shape (filter (\<lambda>e. Settlement_Number (snd e) = ''u'') (results s)))"
proof -
  have ne: "\<forall>k. example_uuid4 k \<noteq> ''''"
    by (simp add: example_uuid4_not_empty)
  have run: "map_sum id (\<lambda>s. map (\<lambda>(i, r). (i, Date r, Settlement_Number r)) (results s))
               (process_mcp example_uuid4 3 scenario4)
             = Inr [(2, Some (9 * day_ns), ''u''), (1, Some (12 * day_ns), ''u''),
                    (0, Some (10 * day_ns), ''u'')]"
    by code_simp
  from group_records_in_date_order
         [OF example_uuid4_inj ne, of "''100''" scenario1_debit "init 3" 3 scenario4]
  obtain s where s: "process_mcp example_uuid4 3 scenario4 = Inr s"
    and shape: "\<forall>g. g \<noteq> '''' \<longrightarrow>
                  group_shape (filter (\<lambda>e. Settlement_Number (snd e) = g) (results s))"
    by blast
  have "group_shape (filter (\<lambda>e. Settlement_Number (snd e) = ''u'') (results s))"
    using shape by simp
  then show ?thesis using example_uuid4_inj ne run s by auto
qed


section \<open>The identifiers do not steer the run\<close>

text \<open>The state with every settlement identifier of the results renamed by \<open>f\<close>.\<close>

definition rename :: "(string \<Rightarrow> string) \<Rightarrow> nat \<times> result \<Rightarrow> nat \<times> result" where
  "rename f e = (fst e, (snd e)\<lparr>Settlement_Number := f (Settlement_Number (snd e))\<rparr>)"

definition relabel :: "(string \<Rightarrow> string) \<Rightarrow> LedgerSettlement \<Rightarrow> LedgerSettlement" where
  "relabel f s = s\<lparr>results := map (rename f) (results s)\<rparr>"

lemma relabel_fields:
  "ledger (relabel f s) = ledger s" "transdays (relabel f s) = transdays s"
  "uuid_calls (relabel f s) = uuid_calls s" "append_debit (relabel f s) = append_debit s"
  "results (relabel f s) = map (rename f) (results s)"
  by (simp_all add: relabel_def)

lemma filtered_relabel: "filtered (relabel f s) a = filtered s a"
  by (simp add: filtered_def relabel_fields)

lemma attached_relabel: "attached d (relabel f s) = attached d s"
  by (simp add: attached_def unsettletrans_def mark_read_def relabel_fields)

lemma group_records_relabel:
  assumes "f (u0 (uuid_calls s)) = u (uuid_calls s)"
  shows "group_records u a d (relabel f s) = map (rename f) (group_records u0 a d s)"
  using assms
  by (simp add: group_records_def attached_relabel relabel_fields rename_def
        settlement_record_def)

lemma fst_rename: "fst \<circ> rename f = fst"
  by (rule ext) (simp add: rename_def)

lemma debit_outcome_relabel:
  assumes "f (u0 (uuid_calls s)) = u (uuid_calls s)"
  shows "debit_outcome u a d (relabel f s) = relabel f (debit_outcome u0 a d s)"
  by (rule LedgerSettlement.equality)
     (simp_all add: debit_outcome_def group_records_relabel [of f u0 s u a d, OF assms]
        relabel_fields attached_relabel fst_rename)

lemma settle_account_relabel:
  assumes "\<And>k. f (u0 k) = u k"
  shows "settle_account u a (relabel f s) = map_sum id (relabel f) (settle_account u0 a s)"
  using assms
proof (induction u0 a s rule: settle_account.induct)
  case (1 u0 a s)
  show ?case
  proof (cases "filtered s a")
    case Nil
    then show ?thesis by (simp add: filtered_relabel)
  next
    case (Cons d rest)
    have eq: "settle_debit u0 a d s = Inr (debit_outcome u0 a d s)"
      by (rule settle_debit_eq)
    have "settle_account u a (relabel f s) = settle_account u a (debit_outcome u a d (relabel f s))"
      using Cons by (subst settle_account.simps) (simp add: filtered_relabel settle_debit_eq)
    also have "\<dots> = settle_account u a (relabel f (debit_outcome u0 a d s))"
      by (simp only: debit_outcome_relabel [of f u0 s u a d, OF "1.prems"])
    also have "\<dots> = map_sum id (relabel f) (settle_account u0 a (debit_outcome u0 a d s))"
      using "1.IH" [OF Cons eq "1.prems"] .
    also have "\<dots> = map_sum id (relabel f) (settle_account u0 a s)"
      using Cons by (subst (2) settle_account.simps) (simp add: settle_debit_eq)
    finally show ?thesis .
  qed
qed

lemma for_accounts_relabel:
  assumes "\<And>k. f (u0 k) = u k"
  shows "for_accounts u accounts (relabel f s) = map_sum id (relabel f) (for_accounts u0 accounts s)"
proof (induction accounts arbitrary: s)
  case Nil
  then show ?case by simp
next
  case (Cons a accounts)
  show ?case
  proof (cases "settle_account u0 a s")
    case (Inl e)
    then show ?thesis using settle_account_relabel [of f u0 u a s, OF assms] by simp
  next
    case (Inr s')
    then show ?thesis
      using settle_account_relabel [of f u0 u a s, OF assms] Cons.IH [of s'] by simp
  qed
qed

lemma write_unsettled_relabel:
  assumes "f '''' = ''''"
  shows "write_unsettled (relabel f s) = relabel f (write_unsettled s)"
  using assms
  by (simp add: write_unsettled_def relabel_def rename_def unsettled_record_def
        case_prod_unfold)

lemma process_mcp_relabel:
  assumes "\<And>k. f (u0 k) = u k" "f '''' = ''''"
  shows "process_mcp u days file = map_sum id (relabel f) (process_mcp u0 days file)"
proof -
  let ?s0 = "load_ledger file (init days)"
  have s0: "relabel f ?s0 = ?s0"
    by (simp add: relabel_def load_ledger_def init_def)
  have "settle_ledger u ?s0 = settle_ledger u (relabel f ?s0)" by (simp only: s0)
  also have "\<dots> = map_sum id (relabel f) (settle_ledger u0 ?s0)"
    unfolding settle_ledger_def relabel_fields
    by (rule for_accounts_relabel [of f u0 u, OF assms(1)])
  finally show ?thesis
    by (cases "settle_ledger u0 ?s0")
       (simp_all add: process_mcp_def write_unsettled_relabel [of f, OF assms(2)])
qed


text \<open>The settlement identifier of a record whose group is the \<open>n\<close>-th pass of the run
  (\<open>Some n\<close>), or which is unsettled (\<open>None\<close>).\<close>

definition group_id :: "(nat \<Rightarrow> string) \<Rightarrow> nat option \<Rightarrow> string" where
  "group_id uuid4 k = (case k of None \<Rightarrow> '''' | Some n \<Rightarrow> uuid4 n)"

definition render :: "(nat \<Rightarrow> string) \<Rightarrow> nat \<times> result \<times> nat option \<Rightarrow> nat \<times> result" where
  "render uuid4 e =
     (fst e, (fst (snd e))\<lparr>Settlement_Number := group_id uuid4 (snd (snd e))\<rparr>)"

lemma process_mcp_total: "\<exists>s. process_mcp uuid4 days file = Inr s"
  using process_mcp_run_inv [of uuid4 days "file"] by blast

lemma process_mcp_rendered:
  "\<exists>out. \<forall>uuid4. \<exists>s. process_mcp uuid4 days file = Inr s \<and> results s = map (render uuid4) out"
proof -
  obtain s0 where s0: "process_mcp example_uuid4 days file = Inr s0"
    using process_mcp_total by blast
  define decode :: "string \<Rightarrow> nat option"
    where "decode t = (if t = '''' then None else Some (length t - 1))" for t
  define out where "out = map (\<lambda>e. (fst e, snd e, decode (Settlement_Number (snd e)))) (results s0)"
  have "\<exists>s. process_mcp uuid4 days file = Inr s \<and> results s = map (render uuid4) out" for uuid4
  proof -
    let ?f = "\<lambda>t. group_id uuid4 (decode t)"
    have 1: "?f (example_uuid4 k) = uuid4 k" for k
      by (simp add: decode_def group_id_def example_uuid4_def)
    have 2: "?f '''' = ''''"
      by (simp add: decode_def group_id_def)
    have "process_mcp uuid4 days file = Inr (relabel ?f s0)"
      using process_mcp_relabel [of ?f example_uuid4 uuid4 days "file", OF 1 2] s0 by simp
    moreover have "results (relabel ?f s0) = map (render uuid4) out"
      by (simp add: relabel_fields out_def render_def rename_def)
    ultimately show ?thesis by blast
  qed
  then show ?thesis by blast
qed

lemma group_id_eq_iff:
  assumes "inj uuid4" "\<forall>k. uuid4 k \<noteq> ''''"
  shows "(group_id uuid4 a = group_id uuid4 b) = (a = b)"
proof (cases a; cases b)
  fix x y
  assume "a = Some x" "b = Some y"
  then show ?thesis using injD [OF assms(1), of x y] by (auto simp: group_id_def)
next
  fix y
  assume "a = None" "b = Some y"
  then show ?thesis using assms(2) by (metis group_id_def option.simps(4,5))
next
  fix x
  assume "a = Some x" "b = None"
  then show ?thesis using assms(2) by (metis group_id_def option.simps(4,5))
qed simp

section \<open>Determinism\<close>

text \<open>
  C9: the input and the tolerance determine the output up to the names of the groups.
  There is one sequence of records, each with the number of the pass that formed its group
  or with none, such that for every sequence of identifiers drawn the run returns these
  records in this order, a record of pass \<open>n\<close> carrying the \<open>n\<close>-th identifier drawn and
  an unsettled record the empty one. So two runs on the same input, each drawing distinct
  identifiers, none empty, return the same rows in the same order, and two records share
  their identifier in one run exactly when they share it in the other.
\<close>

theorem output_determined_up_to_identifiers:
  "(\<exists>out. \<forall>uuid4. \<exists>s. process_mcp uuid4 days file = Inr s
            \<and> results s = map (render uuid4) out)
   \<and> (inj u1 \<and> inj u2 \<and> (\<forall>k. u1 k \<noteq> '''' \<and> u2 k \<noteq> '''') \<longrightarrow>
       (\<exists>s1 s2. process_mcp u1 days file = Inr s1 \<and> process_mcp u2 days file = Inr s2
          \<and> length (results s1) = length (results s2)
          \<and> (\<forall>i < length (results s1). \<forall>j < length (results s1).
                fst (results s1 ! i) = fst (results s2 ! i)
                \<and> (snd (results s1 ! i))\<lparr>Settlement_Number := ''''\<rparr>
                    = (snd (results s2 ! i))\<lparr>Settlement_Number := ''''\<rparr>
                \<and> ((Settlement_Number (snd (results s1 ! i))
                      = Settlement_Number (snd (results s1 ! j)))
                   = (Settlement_Number (snd (results s2 ! i))
                      = Settlement_Number (snd (results s2 ! j)))))))"
proof (intro conjI impI)
  show "\<exists>out. \<forall>uuid4. \<exists>s. process_mcp uuid4 days file = Inr s
            \<and> results s = map (render uuid4) out"
    by (rule process_mcp_rendered)
next
  assume gen: "inj u1 \<and> inj u2 \<and> (\<forall>k. u1 k \<noteq> '''' \<and> u2 k \<noteq> '''')"
  obtain out where out: "\<And>uuid4. \<exists>s. process_mcp uuid4 days file = Inr s
            \<and> results s = map (render uuid4) out"
    using process_mcp_rendered [of days "file"] by blast
  obtain s1 where s1: "process_mcp u1 days file = Inr s1" "results s1 = map (render u1) out"
    using out [of u1] by blast
  obtain s2 where s2: "process_mcp u2 days file = Inr s2" "results s2 = map (render u2) out"
    using out [of u2] by blast
  have id1: "(group_id u1 a = group_id u1 b) = (a = b)" for a b
    using gen by (intro group_id_eq_iff) simp_all
  have id2: "(group_id u2 a = group_id u2 b) = (a = b)" for a b
    using gen by (intro group_id_eq_iff) simp_all
  have "fst (results s1 ! i) = fst (results s2 ! i)
        \<and> (snd (results s1 ! i))\<lparr>Settlement_Number := ''''\<rparr>
            = (snd (results s2 ! i))\<lparr>Settlement_Number := ''''\<rparr>
        \<and> ((Settlement_Number (snd (results s1 ! i)) = Settlement_Number (snd (results s1 ! j)))
           = (Settlement_Number (snd (results s2 ! i)) = Settlement_Number (snd (results s2 ! j))))"
    if "i < length (results s1)" "j < length (results s1)" for i j
    using that by (simp add: s1(2) s2(2) render_def id1 id2)
  then show "\<exists>s1 s2. process_mcp u1 days file = Inr s1 \<and> process_mcp u2 days file = Inr s2
          \<and> length (results s1) = length (results s2)
          \<and> (\<forall>i < length (results s1). \<forall>j < length (results s1).
                fst (results s1 ! i) = fst (results s2 ! i)
                \<and> (snd (results s1 ! i))\<lparr>Settlement_Number := ''''\<rparr>
                    = (snd (results s2 ! i))\<lparr>Settlement_Number := ''''\<rparr>
                \<and> ((Settlement_Number (snd (results s1 ! i))
                      = Settlement_Number (snd (results s1 ! j)))
                   = (Settlement_Number (snd (results s2 ! i))
                      = Settlement_Number (snd (results s2 ! j)))))"
    using s1 s2 by (intro exI [of _ s1] exI [of _ s2]) simp
qed


text \<open>A second generator for the examples.\<close>

definition other_uuid4 :: "nat \<Rightarrow> string" where
  "other_uuid4 k = CHR ''v'' # example_uuid4 k"

lemma other_uuid4_inj: "inj other_uuid4"
  using example_uuid4_inj by (auto simp: inj_def other_uuid4_def)

text \<open>Two debits and a credit of one account: the second debit shares the number 7 with
  the first and the number 8 with the credit.\<close>

definition scenario5 :: "csv_row list" where
  "scenario5 = [tx ''100'' 10 ''INV 7'' (- 100), tx ''100'' 11 ''INV 7 and 8'' (- 50),
                tx ''100'' 12 ''ref 8'' 50]"

theorem output_determined_up_to_identifiers_witness:
  "inj example_uuid4 \<and> inj other_uuid4
   \<and> (\<forall>k. example_uuid4 k \<noteq> '''' \<and> other_uuid4 k \<noteq> '''')
   \<and> (\<exists>s1 s2. process_mcp example_uuid4 3 scenario5 = Inr s1
          \<and> process_mcp other_uuid4 3 scenario5 = Inr s2
          \<and> length (results s1) = length (results s2)
          \<and> map (\<lambda>(i, r). (i, Settlement_Number r)) (results s1)
              = [(1, ''u''), (0, ''u''), (2, ''uu''), (1, ''uu'')]
          \<and> map (\<lambda>(i, r). (i, Settlement_Number r)) (results s2)
              = [(1, ''vu''), (0, ''vu''), (2, ''vuu''), (1, ''vuu'')])"
proof -
  have gen: "inj example_uuid4 \<and> inj other_uuid4
             \<and> (\<forall>k. example_uuid4 k \<noteq> '''' \<and> other_uuid4 k \<noteq> '''')"
    by (simp add: example_uuid4_inj other_uuid4_inj example_uuid4_not_empty other_uuid4_def)
  have run1: "map_sum id (\<lambda>s. map (\<lambda>(i, r). (i, Settlement_Number r)) (results s))
                (process_mcp example_uuid4 3 scenario5)
              = Inr [(1, ''u''), (0, ''u''), (2, ''uu''), (1, ''uu'')]"
    by code_simp
  have run2: "map_sum id (\<lambda>s. map (\<lambda>(i, r). (i, Settlement_Number r)) (results s))
                (process_mcp other_uuid4 3 scenario5)
              = Inr [(1, ''vu''), (0, ''vu''), (2, ''vuu''), (1, ''vuu'')]"
    by code_simp
  from output_determined_up_to_identifiers [of 3 scenario5 example_uuid4 other_uuid4] gen
  obtain s1 s2 where "process_mcp example_uuid4 3 scenario5 = Inr s1"
    "process_mcp other_uuid4 3 scenario5 = Inr s2"
    "length (results s1) = length (results s2)"
    by blast
  then show ?thesis using gen run1 run2 by auto
qed

section \<open>Every candidate of positive score is attached\<close>

lemma distinct_fst_group_records: "distinct (map fst (group_records uuid4 a d s))"
proof (cases "attached d s = []")
  case True
  then show ?thesis by (simp add: group_records_def)
next
  case False
  have 1: "distinct (map fst (attached d s))"
    unfolding attached_def by (intro distinct_map_filter distinct_unsettletrans)
  have 2: "fst d \<notin> set (map fst (attached d s))"
  proof
    assume "fst d \<in> set (map fst (attached d s))"
    then obtain jc where "jc \<in> set (attached d s)" "fst jc = fst d" by auto
    then show False using attached_row [of "fst jc" "snd jc" d s] by simp
  qed
  have "map fst (group_records uuid4 a d s) = map fst (attached d s) @ [fst d]"
    using False by (simp add: group_records_def o_def)
  then show ?thesis using 1 2 by simp
qed

text \<open>Three candidates of one debit, by date: the first shares two numbers with the
  debit, the second none, the third one.\<close>

definition scenario8 :: "csv_row list" where
  "scenario8 = [tx ''100'' 10 ''INV 12 34'' (- 100), tx ''100'' 9 ''12 34'' 60,
                tx ''100'' 10 ''nothing 99'' 10, tx ''100'' 11 ''ref 34'' 40]"

definition scenario8_debit :: "nat \<times> row" where
  "scenario8_debit = (0, load_row (scenario8 ! 0))"

text \<open>
  C7: in the pass for a debit, every candidate whose overlap score with the debit is
  positive is marked matched, and among the records that the pass appends there is exactly
  one of its row: it carries the identifier drawn for the pass, the account of the pass and
  the columns of the candidate. This holds for every candidate, whatever the scores of the
  candidates before it.
\<close>

theorem positive_candidates_all_attached:
  "\<exists>s' new. settle_debit uuid4 a d s = Inr s' \<and> results s' = results s @ new
     \<and> (\<forall>(j, cr) \<in> set (unsettletrans (mark_read d s) (snd d)).
           0 < overlap (ExtractedNumbers (snd d)) (ExtractedNumbers cr) \<longrightarrow>
           Matched (ledger s' ! j)
           \<and> (\<exists>r. filter (\<lambda>e. fst e = j) new = [(j, r)]
                  \<and> r = settlement_record cr a (CostCentre (snd d)) (ProfitCentre (snd d))
                          (uuid4 (uuid_calls s))
                  \<and> Settlement_Number r = uuid4 (uuid_calls s)
                  \<and> Account r = Some a
                  \<and> same_entry r cr))"
proof -
  let ?s' = "debit_outcome uuid4 a d s"
  let ?new = "group_records uuid4 a d s"
  let ?g = "uuid4 (uuid_calls s)"
  have "Matched (ledger ?s' ! j)
        \<and> (\<exists>r. filter (\<lambda>e. fst e = j) ?new = [(j, r)]
               \<and> r = settlement_record cr a (CostCentre (snd d)) (ProfitCentre (snd d)) ?g
               \<and> Settlement_Number r = ?g \<and> Account r = Some a \<and> same_entry r cr)"
    if mem: "(j, cr) \<in> set (unsettletrans (mark_read d s) (snd d))"
      and pos: "0 < overlap (ExtractedNumbers (snd d)) (ExtractedNumbers cr)" for j cr
  proof -
    let ?r = "settlement_record cr a (CostCentre (snd d)) (ProfitCentre (snd d)) ?g"
    have att: "(j, cr) \<in> set (attached d s)" using mem pos by (simp add: set_attached)
    then have ne: "attached d s \<noteq> []" by auto
    have rec: "(j, ?r) \<in> set ?new"
      using att ne by (force simp: group_records_def)
    then have "j \<in> fst ` set ?new" by force
    moreover have row: "j < length (ledger s)"
      "CostCentre cr = CostCentre (snd d)" "ProfitCentre cr = ProfitCentre (snd d)"
      using attached_row [OF att] by simp_all
    ultimately have m: "Matched (ledger ?s' ! j)" by (simp add: Matched_debit_outcome)
    have one: "filter (\<lambda>e. fst e = j) ?new = [(j, ?r)]"
      using distinct_fst_group_records rec by (rule filter_label_single)
    have fields: "Settlement_Number ?r = ?g \<and> Account ?r = Some a \<and> same_entry ?r cr"
      using row(2,3) by (simp add: settlement_record_def same_entry_def)
    show ?thesis using m one fields by blast
  qed
  then show ?thesis
    using settle_debit_eq [of uuid4 a d s] results_debit_outcome [of uuid4 a d s]
    by (intro exI [of _ ?s'] exI [of _ ?new]) auto
qed

theorem positive_candidates_all_attached_witness:
  "map (\<lambda>(j, cr). (j, overlap (ExtractedNumbers (snd scenario8_debit)) (ExtractedNumbers cr)))
       (unsettletrans (mark_read scenario8_debit (load_ledger scenario8 (init 3)))
          (snd scenario8_debit))
     = [(1, 2), (2, 0), (3, 1)]
   \<and> (\<exists>s' new r1 r3.
         settle_debit example_uuid4 ''100'' scenario8_debit (load_ledger scenario8 (init 3)) = Inr s'
         \<and> results s' = new
         \<and> map (\<lambda>(j, r). (j, Settlement_Number r)) new = [(1, ''u''), (3, ''u''), (0, ''u'')]
         \<and> Matched (ledger s' ! 1) \<and> Matched (ledger s' ! 3)
         \<and> filter (\<lambda>e. fst e = 1) new = [(1, r1)] \<and> Settlement_Number r1 = ''u''
         \<and> Account r1 = Some ''100'' \<and> same_entry r1 (scenario8 ! 1)
         \<and> filter (\<lambda>e. fst e = 3) new = [(3, r3)] \<and> Settlement_Number r3 = ''u''
         \<and> Account r3 = Some ''100'' \<and> same_entry r3 (scenario8 ! 3))"
proof -
  let ?s = "load_ledger scenario8 (init 3)"
  let ?cs = "unsettletrans (mark_read scenario8_debit ?s) (snd scenario8_debit)"
  have scores: "map (\<lambda>(j, cr). (j, overlap (ExtractedNumbers (snd scenario8_debit))
                                     (ExtractedNumbers cr))) ?cs
                = [(1, 2), (2, 0), (3, 1)]"
    by code_simp
  have mem1: "(1, load_row (scenario8 ! 1)) \<in> set ?cs"
    and mem3: "(3, load_row (scenario8 ! 3)) \<in> set ?cs"
    by code_simp+
  have pos1: "0 < overlap (ExtractedNumbers (snd scenario8_debit))
                     (ExtractedNumbers (load_row (scenario8 ! 1)))"
    and pos3: "0 < overlap (ExtractedNumbers (snd scenario8_debit))
                     (ExtractedNumbers (load_row (scenario8 ! 3)))"
    by code_simp+
  have vals: "results ?s = []" "example_uuid4 (uuid_calls ?s) = ''u''"
    by code_simp+
  have run: "map_sum id (\<lambda>s'. map (\<lambda>(j, r). (j, Settlement_Number r)) (results s'))
               (settle_debit example_uuid4 ''100'' scenario8_debit ?s)
             = Inr [(1, ''u''), (3, ''u''), (0, ''u'')]"
    by code_simp
  from positive_candidates_all_attached [of example_uuid4 "''100''" scenario8_debit ?s]
  obtain s' new where s': "settle_debit example_uuid4 ''100'' scenario8_debit ?s = Inr s'"
    and new: "results s' = results ?s @ new"
    and all: "\<forall>(j, cr) \<in> set ?cs.
           0 < overlap (ExtractedNumbers (snd scenario8_debit)) (ExtractedNumbers cr) \<longrightarrow>
           Matched (ledger s' ! j)
           \<and> (\<exists>r. filter (\<lambda>e. fst e = j) new = [(j, r)]
                  \<and> r = settlement_record cr ''100'' (CostCentre (snd scenario8_debit))
                          (ProfitCentre (snd scenario8_debit))
                          (example_uuid4 (uuid_calls ?s))
                  \<and> Settlement_Number r = example_uuid4 (uuid_calls ?s)
                  \<and> Account r = Some ''100''
                  \<and> same_entry r cr)"
    by (elim exE conjE)
  have c1: "Matched (ledger s' ! 1)
            \<and> (\<exists>r. filter (\<lambda>e. fst e = 1) new = [(1, r)]
                  \<and> r = settlement_record (load_row (scenario8 ! 1)) ''100''
                          (CostCentre (snd scenario8_debit))
                          (ProfitCentre (snd scenario8_debit))
                          (example_uuid4 (uuid_calls ?s))
                  \<and> Settlement_Number r = example_uuid4 (uuid_calls ?s)
                  \<and> Account r = Some ''100''
                  \<and> same_entry r (load_row (scenario8 ! 1)))"
    using bspec [OF all mem1] pos1 by (simp only: prod.case) 
  have c3: "Matched (ledger s' ! 3)
            \<and> (\<exists>r. filter (\<lambda>e. fst e = 3) new = [(3, r)]
                  \<and> r = settlement_record (load_row (scenario8 ! 3)) ''100''
                          (CostCentre (snd scenario8_debit))
                          (ProfitCentre (snd scenario8_debit))
                          (example_uuid4 (uuid_calls ?s))
                  \<and> Settlement_Number r = example_uuid4 (uuid_calls ?s)
                  \<and> Account r = Some ''100''
                  \<and> same_entry r (load_row (scenario8 ! 3)))"
    using bspec [OF all mem3] pos3 by (simp only: prod.case)
  from c1 obtain r1 where r1: "Matched (ledger s' ! 1)"
    "filter (\<lambda>e. fst e = 1) new = [(1, r1)]"
    "Settlement_Number r1 = example_uuid4 (uuid_calls ?s)" "Account r1 = Some ''100''"
    "same_entry r1 (load_row (scenario8 ! 1))"
    by (elim exE conjE)
  from c3 obtain r3 where r3: "Matched (ledger s' ! 3)"
    "filter (\<lambda>e. fst e = 3) new = [(3, r3)]"
    "Settlement_Number r3 = example_uuid4 (uuid_calls ?s)" "Account r3 = Some ''100''"
    "same_entry r3 (load_row (scenario8 ! 3))"
    by (elim exE conjE)
  have res: "results s' = new" using new by (simp only: vals append_Nil)
  have out: "map (\<lambda>(j, r). (j, Settlement_Number r)) new = [(1, ''u''), (3, ''u''), (0, ''u'')]"
    using run unfolding s' by (simp add: res)
  show ?thesis
    apply (rule conjI [OF scores])
    apply (rule exI [of _ s'], rule exI [of _ new], rule exI [of _ r1], rule exI [of _ r3])
    using s' res out r1 r3
    apply (simp only: vals same_entry_load_row)
    done
qed

section \<open>Where the code departs from its description\<close>

text \<open>A debit of account 100 and, a day later, a credit of account 200 with the same
  number in its description.\<close>

definition scenario6 :: "csv_row list" where
  "scenario6 = [tx ''100'' 10 ''INV1002'' (- 100), tx ''200'' 11 ''Payment for INV1002'' 100]"

text \<open>
  C1 (every row attached to a group is of the account of the debit of the group): the
  selection of the candidates (lines 76 to 81) does not compare \<^verbatim>\<open>MainAccount\<close>, which
  the selection of the debits does. On \<open>scenario6\<close> the credit of account 200 is attached
  to the debit of account 100, and its record is written with the account 100 of the
  debit. Each record is shown with its row, the account of the row in the file, the
  account written and the identifier.
\<close>

theorem credit_of_other_account_attached:
  "map_sum id
     (\<lambda>s. map (\<lambda>(i, r). (i, MainAccount (scenario6 ! i), Account r, Settlement_Number r))
            (results s))
     (process_mcp uuid4 3 scenario6)
   = Inr [(1, Some ''200'', Some ''100'', uuid4 0), (0, Some ''100'', Some ''100'', uuid4 0)]"
  by code_simp

text \<open>Two debits of one account, a day apart, with the same number in their descriptions.\<close>

definition scenario7 :: "csv_row list" where
  "scenario7 = [tx ''100'' 10 ''INV 7'' (- 100), tx ''100'' 11 ''INV 7'' (- 50)]"

text \<open>
  C2 (a group has one debit and at least one credit): the selection of the candidates does
  not compare \<^verbatim>\<open>Type\<close>, although \<^verbatim>\<open>match_credits_number\<close> documents its argument as the
  candidate credits. On \<open>scenario7\<close> the second debit is attached to the first: the one
  group of the output has two debits and no credit. Each record is shown with its row,
  the type of the row and the identifier.
\<close>

theorem group_of_two_debits:
  "map_sum id
     (\<lambda>s. map (\<lambda>(i, r). (i, Type (load_row (scenario7 ! i)), Settlement_Number r))
            (results s))
     (process_mcp uuid4 3 scenario7)
   = Inr [(1, debit, uuid4 0), (0, debit, uuid4 0)]"
  by code_simp

text \<open>
  C3 (a matched row is not emitted again, and no row is emitted under two identifiers): a
  debit attached as a candidate is marked matched but not read, so the loop selects it
  later as a debit. On \<open>scenario5\<close> row 1 is attached to the group of row 0 and then,
  with row 2 attached to it, emitted again under the second identifier.
\<close>

theorem row_emitted_under_two_identifiers:
  "map_sum id
     (\<lambda>s. map (\<lambda>(i, r). (i, Type (load_row (scenario5 ! i)), Settlement_Number r))
            (results s))
     (process_mcp uuid4 3 scenario5)
   = Inr [(1, debit, uuid4 0), (0, debit, uuid4 0), (2, credit, uuid4 1), (1, debit, uuid4 1)]"
  by code_simp

end
